theory Spec2Isabelle
  imports Complex_Main "HOL-Library.Log_Nat" "HOL-Library.Word" "HOL-Library.Monad_Syntax"
begin

unbundle bit_operations_syntax

section \<open>Binary32 arithmetic\<close>

text \<open>
  The C type \<open>float\<close> is modelled by the real numbers it holds. Every arithmetic
  operation computes the exact real result and rounds it to the nearest binary32 value,
  ties to the even significand, as IEEE 754 arithmetic in the default rounding mode does
  (each operation is rounded to \<open>float\<close>, that is \<open>FLT_EVAL_METHOD = 0\<close>).

  Every finite binary32 number is an integer multiple of \<open>2^-149\<close>. A value \<open>x\<close> is
  therefore rounded on the scaled value \<open>X = x * 2^149\<close>: the spacing of the binary32
  numbers around \<open>X\<close> is \<open>2 ^ uexp X\<close>, where \<open>uexp X\<close> is the bit length of
  \<open>\<lfloor>\<bar>X\<bar>\<rfloor>\<close> minus the 24 bits of the significand, and 0 in the subnormal range.

  The smoother, the ring buffer, the wrap and the randomizers are modelled on the finite
  numbers: there is no infinity and no NaN, the exponent is not bounded above, and zero has
  no sign. An operation whose C result is infinite or undefined where these programs can
  reach it (a division by zero, a conversion to \<open>int\<close> outside the range of \<open>int\<close>, a
  signed overflow, a read outside a buffer) has no result: the model returns \<open>None\<close>.
  The fader is modelled on every value of the type, with the infinities, NaN and the
  negative zero; they are introduced below.
\<close>

definition rne :: "real \<Rightarrow> int" where
  \<comment> \<open>round to the nearest integer, ties to even\<close>
  "rne y = (let f = \<lfloor>y\<rfloor>; d = y - of_int f in
     if d < 1/2 then f else if 1/2 < d then f + 1 else if even f then f else f + 1)"

definition uexp :: "real \<Rightarrow> nat" where
  "uexp X = nat (bitlen \<lfloor>\<bar>X\<bar>\<rfloor> - 24)"

definition rgrid :: "real \<Rightarrow> real" where
  "rgrid X = of_int (rne (X / 2 ^ uexp X)) * 2 ^ uexp X"

definition fscale :: real where
  "fscale = 2 ^ 149"

definition fround :: "real \<Rightarrow> real" where
  "fround x = rgrid (x * fscale) / fscale"

definition is_float :: "real \<Rightarrow> bool" where
  \<comment> \<open>the binary32 numbers are the values that rounding leaves alone\<close>
  "is_float x \<longleftrightarrow> fround x = x"

definition fadd :: "real \<Rightarrow> real \<Rightarrow> real" where
  "fadd x y = fround (x + y)"

definition fsub :: "real \<Rightarrow> real \<Rightarrow> real" where
  "fsub x y = fround (x - y)"

definition fmul :: "real \<Rightarrow> real \<Rightarrow> real" where
  "fmul x y = fround (x * y)"

definition fdiv :: "real \<Rightarrow> real \<Rightarrow> real option" where
  "fdiv x y = (if y = 0 then None else Some (fround (x / y)))"

definition float_of_int :: "int \<Rightarrow> real" where
  "float_of_int i = fround (of_int i)"

definition float_of_nat :: "nat \<Rightarrow> real" where
  "float_of_nat n = fround (of_nat n)"

definition c_int :: "int \<Rightarrow> int option" where
  \<comment> \<open>the result of an \<open>int\<close> operation, when it fits the 32-bit \<open>int\<close>\<close>
  "c_int i = (if - 2147483648 \<le> i \<and> i \<le> 2147483647 then Some i else None)"

definition int_of_float :: "real \<Rightarrow> int option" where
  \<comment> \<open>the cast \<open>(int)x\<close>: truncation towards zero\<close>
  "int_of_float x = c_int (if 0 \<le> x then \<lfloor>x\<rfloor> else \<lceil>x\<rceil>)"

subsection \<open>Infinities, NaN and the sign of zero\<close>

text \<open>
  The fader divides by a product that can be zero, stores the quotient as its step and goes
  on computing with it. Its model therefore holds every value of the type \<open>float\<close>: a finite
  number, the negative zero, one of the two infinities, or NaN; \<open>Fin 0\<close> is the positive
  zero. An operation on finite operands rounds the exact result as above; a rounded result of
  magnitude \<open>2^128\<close> or more is an overflow and gives the infinity of its sign, and a result
  that rounds to zero keeps its sign. The other cases are those of IEEE 754: an infinity
  absorbs every finite operand, a finite non-zero number divided by zero is an infinity,
  and \<open>inf - inf\<close>, \<open>0 * inf\<close>, \<open>0 / 0\<close>, \<open>inf / inf\<close> and every operation on a NaN give
  NaN. A comparison with a NaN is false, and the two zeros are equal.
\<close>

datatype xfloat = Fin real | NegZero | PosInf | NegInf | NaN

fun xfinite :: "xfloat \<Rightarrow> bool" where
  "xfinite (Fin r) = True"
| "xfinite NegZero = True"
| "xfinite _ = False"

fun xval :: "xfloat \<Rightarrow> real" where
  \<comment> \<open>the number a finite value holds\<close>
  "xval (Fin r) = r"
| "xval _ = 0"

fun xsign :: "xfloat \<Rightarrow> bool" where
  \<comment> \<open>the sign bit\<close>
  "xsign (Fin r) = (r < 0)"
| "xsign NegZero = True"
| "xsign NegInf = True"
| "xsign _ = False"

definition xzero :: "xfloat \<Rightarrow> bool" where
  "xzero a \<longleftrightarrow> xfinite a \<and> xval a = 0"

definition xinf :: "bool \<Rightarrow> xfloat" where
  "xinf s = (if s then NegInf else PosInf)"

definition xround :: "bool \<Rightarrow> real \<Rightarrow> xfloat" where
  \<comment> \<open>the value of an operation whose exact result is \<open>r\<close>; \<open>s\<close> is the sign of an exact zero\<close>
  "xround s r = (let y = fround r in
     if 2 ^ 128 \<le> \<bar>y\<bar> then xinf (r < 0)
     else if y = 0 then (if (if r = 0 then s else r < 0) then NegZero else Fin 0)
     else Fin y)"

fun xneg :: "xfloat \<Rightarrow> xfloat" where
  "xneg (Fin r) = (if r = 0 then NegZero else Fin (- r))"
| "xneg NegZero = Fin 0"
| "xneg PosInf = NegInf"
| "xneg NegInf = PosInf"
| "xneg NaN = NaN"

definition xadd :: "xfloat \<Rightarrow> xfloat \<Rightarrow> xfloat" where
  "xadd a b =
     (if a = NaN \<or> b = NaN then NaN
      else if xfinite a \<and> xfinite b then xround (xsign a \<and> xsign b) (xval a + xval b)
      else if xfinite b then a
      else if xfinite a then b
      else if a = b then a else NaN)"

definition xmul :: "xfloat \<Rightarrow> xfloat \<Rightarrow> xfloat" where
  "xmul a b =
     (if a = NaN \<or> b = NaN then NaN
      else if xfinite a \<and> xfinite b then xround (xsign a \<noteq> xsign b) (xval a * xval b)
      else if xzero a \<or> xzero b then NaN
      else xinf (xsign a \<noteq> xsign b))"

definition xdiv :: "xfloat \<Rightarrow> xfloat \<Rightarrow> xfloat" where
  "xdiv a b =
     (if a = NaN \<or> b = NaN then NaN
      else if xfinite a \<and> xfinite b then
        (if xzero b then (if xzero a then NaN else xinf (xsign a \<noteq> xsign b))
         else xround (xsign a \<noteq> xsign b) (xval a / xval b))
      else if xfinite a then (if xsign a \<noteq> xsign b then NegZero else Fin 0)
      else if xfinite b then xinf (xsign a \<noteq> xsign b)
      else NaN)"

definition xlt :: "xfloat \<Rightarrow> xfloat \<Rightarrow> bool" where
  \<comment> \<open>the comparison \<open>a < b\<close>\<close>
  "xlt a b \<longleftrightarrow> a \<noteq> NaN \<and> b \<noteq> NaN \<and>
     (if xfinite a \<and> xfinite b then xval a < xval b
      else if a = NegInf then b \<noteq> NegInf
      else b = PosInf \<and> a \<noteq> PosInf)"

definition xle :: "xfloat \<Rightarrow> xfloat \<Rightarrow> bool" where
  \<comment> \<open>the comparison \<open>a <= b\<close>\<close>
  "xle a b \<longleftrightarrow> a \<noteq> NaN \<and> b \<noteq> NaN \<and>
     (if xfinite a \<and> xfinite b then xval a \<le> xval b else a = NegInf \<or> b = PosInf)"

definition xeq :: "xfloat \<Rightarrow> xfloat \<Rightarrow> bool" where
  \<comment> \<open>the comparison \<open>a == b\<close>\<close>
  "xeq a b \<longleftrightarrow> a \<noteq> NaN \<and> b \<noteq> NaN \<and>
     (if xfinite a \<and> xfinite b then xval a = xval b else a = b)"

definition is_finite32 :: "xfloat \<Rightarrow> bool" where
  \<comment> \<open>the finite values of the type \<open>float\<close>\<close>
  "is_finite32 a \<longleftrightarrow> xfinite a \<and> is_float (xval a) \<and> \<bar>xval a\<bar> < 2 ^ 128"

section \<open>Math utilities (qx\_math.h)\<close>

definition qx_clamp_float :: "xfloat \<Rightarrow> xfloat \<Rightarrow> xfloat \<Rightarrow> xfloat" where
  "qx_clamp_float v lo hi = (if xlt v lo then lo else (if xlt hi v then hi else v))"

text \<open>
  \<open>qx_ring_interp_linear\<close> first computes the two positions it reads; they are
  \<open>ring_positions\<close>. The buffer is a list, and a read outside it has no result.
\<close>

definition ring_positions :: "real \<Rightarrow> int \<Rightarrow> (int \<times> int) option" where
  "ring_positions index sz = do {
     i1 \<leftarrow> int_of_float index;
     i2 \<leftarrow> c_int (i1 + 1);
     i1' \<leftarrow> (if i1 \<ge> sz then c_int (i1 - sz) else Some i1);
     i2' \<leftarrow> (if i2 \<ge> sz then c_int (i2 - sz) else Some i2);
     Some (i1', i2')
   }"

definition buf_at :: "real list \<Rightarrow> int \<Rightarrow> real option" where
  "buf_at buf i = (if 0 \<le> i \<and> i < int (length buf) then Some (buf ! nat i) else None)"

definition qx_ring_interp_linear :: "real list \<Rightarrow> real \<Rightarrow> int \<Rightarrow> real option" where
  "qx_ring_interp_linear buf index sz = do {
     (i1, i2) \<leftarrow> ring_positions index sz;
     let k = fsub index (float_of_int i1);
     b1 \<leftarrow> buf_at buf i1;
     b2 \<leftarrow> buf_at buf i2;
     Some (fadd b1 (fmul k (fsub b2 b1)))
   }"

text \<open>
  \<open>qx_wrapf\<close> is two while statements, neither with a bound: each is a partial function, and
  \<open>None\<close> is a loop that never ends.
\<close>

partial_function (option) wrapf_up :: "real \<Rightarrow> real \<Rightarrow> real option" where
  "wrapf_up x mx = (if x < 0 then wrapf_up (fadd x mx) mx else Some x)"

partial_function (option) wrapf_down :: "real \<Rightarrow> real \<Rightarrow> real option" where
  "wrapf_down x mx = (if x \<ge> mx then wrapf_down (fsub x mx) mx else Some x)"

definition qx_wrapf :: "real \<Rightarrow> real \<Rightarrow> real option" where
  "qx_wrapf x mx = do { y \<leftarrow> wrapf_up x mx; wrapf_down y mx }"

section \<open>Fader (qx\_fader.h)\<close>

text \<open>
  The fields and the samples of the fader are values of the type \<open>float\<close> with its
  infinities and NaN: \<open>qx_fader_init\<close> has a result for every pair of arguments, and its
  step is infinite when the product \<open>(fadeTime / 1000) * sample_rate\<close> is zero.
\<close>

record qx_fader =
  fade :: xfloat
  step :: xfloat
  enabled :: bool

definition qx_fader_init :: "xfloat \<Rightarrow> xfloat \<Rightarrow> qx_fader" where
  "qx_fader_init fadeTime sample_rate =
     \<lparr>fade = Fin 0,
      step = (if xle fadeTime (Fin 0) then Fin 1
              else xdiv (Fin 1) (xmul (xdiv fadeTime (Fin 1000)) sample_rate)),
      enabled = False\<rparr>"

definition qx_fader_enable :: "qx_fader \<Rightarrow> bool \<Rightarrow> qx_fader" where
  "qx_fader_enable fader en = fader\<lparr>enabled := en, fade := (if en then Fin 0 else Fin 1)\<rparr>"

definition qx_fader_fade :: "qx_fader \<Rightarrow> xfloat \<Rightarrow> xfloat \<times> qx_fader" where
  "qx_fader_fade fader val =
     (let f1 = fader\<lparr>fade := xadd (fade fader) (if enabled fader then step fader else xneg (step fader))\<rparr>;
          f2 = f1\<lparr>fade := qx_clamp_float (fade f1) (Fin 0) (Fin 1)\<rparr>
      in (xmul val (fade f2), f2))"

text \<open>A host calls the fader any number of times; the trace keeps every call, what it
  returned and the state it left.\<close>

datatype fader_call = Enable bool | Fade xfloat

fun fader_calls :: "qx_fader \<Rightarrow> fader_call list \<Rightarrow> (fader_call \<times> xfloat option \<times> qx_fader) list" where
  "fader_calls s [] = []"
| "fader_calls s (Enable b # cs) =
     (let s' = qx_fader_enable s b in (Enable b, None, s') # fader_calls s' cs)"
| "fader_calls s (Fade v # cs) =
     (let (y, s') = qx_fader_fade s v in (Fade v, Some y, s') # fader_calls s' cs)"

fun fade_all :: "qx_fader \<Rightarrow> xfloat list \<Rightarrow> qx_fader" where
  "fade_all s [] = s"
| "fade_all s (v # vs) = fade_all (snd (qx_fader_fade s v)) vs"

definition fader_scenario :: "xfloat \<Rightarrow> xfloat \<Rightarrow> bool \<Rightarrow> xfloat list \<Rightarrow> xfloat" where
  \<comment> \<open>init, one enable, then a fade call for every sample: the fade value at the end\<close>
  "fader_scenario fadeTime sample_rate en vs =
     fade (fade_all (qx_fader_enable (qx_fader_init fadeTime sample_rate) en) vs)"

section \<open>Smoother (qx\_smoother.h)\<close>

text \<open>The field \<open>step\<close> of the smoother is \<open>step_s\<close> here: the fader has a \<open>step\<close>
  already.\<close>

record qx_smoother =
  current :: real
  target :: real
  step_s :: real
  frames :: nat

definition qx_smoother_init :: "real \<Rightarrow> nat \<Rightarrow> qx_smoother" where
  "qx_smoother_init initial n =
     \<lparr>current = initial, target = initial, step_s = 0, frames = (if n > 0 then n else 1)\<rparr>"

definition qx_smoother_set_target :: "qx_smoother \<Rightarrow> real \<Rightarrow> qx_smoother option" where
  "qx_smoother_set_target s t =
     (let s1 = s\<lparr>target := t\<rparr> in do {
        q \<leftarrow> fdiv (fsub (target s1) (current s1)) (float_of_nat (frames s1));
        Some (s1\<lparr>step_s := q\<rparr>)
      })"

definition qx_smoother_next :: "qx_smoother \<Rightarrow> real \<times> qx_smoother" where
  "qx_smoother_next s =
     (if current s = target s then (current s, s)
      else let s1 = s\<lparr>current := fadd (current s) (step_s s)\<rparr>;
               s2 = (if (step_s s1 > 0 \<and> current s1 > target s1) \<or>
                        (step_s s1 < 0 \<and> current s1 < target s1)
                     then s1\<lparr>current := target s1\<rparr> else s1)
           in (current s2, s2))"

definition qx_smoother_get :: "qx_smoother \<Rightarrow> real" where
  "qx_smoother_get s = current s"

fun smoother_nexts :: "nat \<Rightarrow> qx_smoother \<Rightarrow> real list \<times> qx_smoother" where
  "smoother_nexts 0 s = ([], s)"
| "smoother_nexts (Suc n) s =
     (let (y, s1) = qx_smoother_next s; (ys, s2) = smoother_nexts n s1 in (y # ys, s2))"

definition smoother_scenario :: "real \<Rightarrow> nat \<Rightarrow> real \<Rightarrow> nat \<Rightarrow> real list option" where
  \<comment> \<open>init, one set-target, then \<open>n\<close> calls of next: the values they return\<close>
  "smoother_scenario initial fr t n =
     map_option (\<lambda>s. fst (smoother_nexts n s))
       (qx_smoother_set_target (qx_smoother_init initial fr) t)"

datatype smoother_call = Set_Target real | Next | Get

fun smoother_calls :: "qx_smoother \<Rightarrow> smoother_call list \<Rightarrow> qx_smoother option" where
  "smoother_calls s [] = Some s"
| "smoother_calls s (Set_Target t # cs) =
     (case qx_smoother_set_target s t of None \<Rightarrow> None | Some s' \<Rightarrow> smoother_calls s' cs)"
| "smoother_calls s (Next # cs) = smoother_calls (snd (qx_smoother_next s)) cs"
| "smoother_calls s (Get # cs) = smoother_calls s cs"

section \<open>Randomizer, the inline variant (qx\_randomizer.h)\<close>

text \<open>The fields \<open>min\<close>, \<open>max\<close> and \<open>range\<close> are \<open>min_r\<close>, \<open>max_r\<close> and \<open>range_r\<close>
  here.\<close>

record qx_randomizer =
  seed :: "32 word"
  min_r :: real
  max_r :: real
  resolution :: real
  range_r :: real
  inv_max_uint :: real
  max_steps :: int

definition UINT32_MAX :: nat where
  "UINT32_MAX = 4294967295"

definition qx_randomizer_init :: "real \<Rightarrow> real \<Rightarrow> real \<Rightarrow> qx_randomizer option" where
  "qx_randomizer_init mn mx res = do {
     inv \<leftarrow> fdiv 1 (float_of_nat UINT32_MAX);
     q \<leftarrow> fdiv (fsub mx mn) res;
     ms \<leftarrow> int_of_float (fadd q (1/2));
     Some \<lparr>seed = 856382025, min_r = mn, max_r = mx, resolution = res,
           range_r = fsub mx mn, inv_max_uint = inv, max_steps = ms\<rparr>
   }"

definition qx_randomizer_set_seed :: "qx_randomizer \<Rightarrow> 32 word \<Rightarrow> qx_randomizer" where
  "qx_randomizer_set_seed r s = r\<lparr>seed := s\<rparr>"

definition qx_randomizer_set_range :: "qx_randomizer \<Rightarrow> real \<Rightarrow> real \<Rightarrow> qx_randomizer option" where
  "qx_randomizer_set_range r mn mx =
     (let r1 = r\<lparr>min_r := mn, max_r := mx, range_r := fsub mx mn\<rparr> in do {
        q \<leftarrow> fdiv (range_r r1) (resolution r1);
        ms \<leftarrow> int_of_float (fadd q (1/2));
        Some (r1\<lparr>max_steps := ms\<rparr>)
      })"

definition qx_randomizer_set_resolution :: "qx_randomizer \<Rightarrow> real \<Rightarrow> qx_randomizer option" where
  "qx_randomizer_set_resolution r res =
     (let r1 = r\<lparr>resolution := res\<rparr> in do {
        q \<leftarrow> fdiv (range_r r1) res;
        ms \<leftarrow> int_of_float (fadd q (1/2));
        Some (r1\<lparr>max_steps := ms\<rparr>)
      })"

definition qx_randomizer_get_float :: "qx_randomizer \<Rightarrow> (real \<times> qx_randomizer) option" where
  "qx_randomizer_get_float r =
     (let r1 = r\<lparr>seed := seed r * 1664525 + 1013904223\<rparr>;
          normalized = fmul (float_of_nat (unat (seed r1))) (inv_max_uint r1)
      in do {
        n \<leftarrow> c_int (max_steps r1 + 1);
        st \<leftarrow> int_of_float (fmul normalized (float_of_int n));
        let st' = (if st > max_steps r1 then max_steps r1 else st);
        Some (fadd (min_r r1) (fmul (float_of_int st') (resolution r1)), r1)
      })"

fun draws :: "nat \<Rightarrow> qx_randomizer \<Rightarrow> (real list \<times> qx_randomizer) option" where
  "draws 0 r = Some ([], r)"
| "draws (Suc n) r = do {
     (y, r1) \<leftarrow> qx_randomizer_get_float r;
     (ys, r2) \<leftarrow> draws n r1;
     Some (y # ys, r2)
   }"

definition first_draw :: "real \<Rightarrow> real \<Rightarrow> real \<Rightarrow> 32 word \<Rightarrow> real option" where
  \<comment> \<open>init, set-seed, one draw: the value drawn\<close>
  "first_draw mn mx res s = do {
     r \<leftarrow> qx_randomizer_init mn mx res;
     (y, r') \<leftarrow> qx_randomizer_get_float (qx_randomizer_set_seed r s);
     Some y
   }"

text \<open>An instance is configured by init and then any number of the three setters.\<close>

datatype randomizer_setting = Set_Seed "32 word" | Set_Range real real | Set_Resolution real

fun configure :: "qx_randomizer \<Rightarrow> randomizer_setting list \<Rightarrow> qx_randomizer option" where
  "configure r [] = Some r"
| "configure r (Set_Seed s # cs) = configure (qx_randomizer_set_seed r s) cs"
| "configure r (Set_Range mn mx # cs) = do {
     r' \<leftarrow> qx_randomizer_set_range r mn mx; configure r' cs }"
| "configure r (Set_Resolution res # cs) = do {
     r' \<leftarrow> qx_randomizer_set_resolution r res; configure r' cs }"

section \<open>Randomizer, the opaque variant (radomizer.c)\<close>

text \<open>
  The second implementation has the same function names; here they carry the suffix
  \<open>_c\<close>. Its functions return at once on a null pointer; the model's instance is
  always there.
\<close>

record qx_randomizer_c =
  min_c :: real
  max_c :: real
  resolution_c :: real
  seed_c :: "32 word"

definition LCG_A :: "32 word" where "LCG_A = 1664525"
definition LCG_C :: "32 word" where "LCG_C = 1013904223"
definition LCG_M :: "32 word" where "LCG_M = 0xFFFFFFFF"

definition qx_randomizer_default_seed :: "32 word" where
  "qx_randomizer_default_seed = 0x12345678"

definition qx_randomizer_next_seed :: "32 word \<Rightarrow> 32 word" where
  "qx_randomizer_next_seed current_seed = (LCG_A * current_seed + LCG_C) AND LCG_M"

definition qx_randomizer_init_c :: "real \<Rightarrow> real \<Rightarrow> real \<Rightarrow> qx_randomizer_c" where
  "qx_randomizer_init_c mn mx res =
     \<lparr>min_c = mn, max_c = mx, resolution_c = (if res \<le> 0 then 1 else res),
      seed_c = qx_randomizer_default_seed\<rparr>"

definition qx_randomizer_set_seed_c :: "qx_randomizer_c \<Rightarrow> 32 word \<Rightarrow> qx_randomizer_c" where
  "qx_randomizer_set_seed_c r s = r\<lparr>seed_c := s\<rparr>"

definition qx_randomizer_get_float_c :: "qx_randomizer_c \<Rightarrow> (real \<times> qx_randomizer_c) option" where
  "qx_randomizer_get_float_c r =
     (let r1 = r\<lparr>seed_c := qx_randomizer_next_seed (seed_c r)\<rparr> in do {
        normalized \<leftarrow> fdiv (float_of_nat (unat (seed_c r1))) (float_of_nat UINT32_MAX);
        let rng = fsub (max_c r1) (min_c r1);
        let val = fadd (min_c r1) (fmul normalized rng);
        steps \<leftarrow> fdiv (fsub val (min_c r1)) (resolution_c r1);
        steps_int \<leftarrow> int_of_float (fadd steps (1/2));
        let quantized_value = fadd (min_c r1) (fmul (float_of_int steps_int) (resolution_c r1));
        let quantized_value = (if quantized_value < min_c r1 then min_c r1
                               else if quantized_value > max_c r1 then max_c r1
                               else quantized_value);
        Some (quantized_value, r1)
      })"

fun draws_c :: "nat \<Rightarrow> qx_randomizer_c \<Rightarrow> (real list \<times> qx_randomizer_c) option" where
  "draws_c 0 r = Some ([], r)"
| "draws_c (Suc n) r = do {
     (y, r1) \<leftarrow> qx_randomizer_get_float_c r;
     (ys, r2) \<leftarrow> draws_c n r1;
     Some (y # ys, r2)
   }"

section \<open>Properties of the rounding\<close>

subsection \<open>Rounding to the nearest integer\<close>

lemma rne_of_int: "rne (of_int n) = n"
  by (simp add: rne_def)

lemma rne_floor_le: "\<lfloor>y\<rfloor> \<le> rne y"
  by (simp add: rne_def Let_def)

lemma rne_le_floor1: "rne y \<le> \<lfloor>y\<rfloor> + 1"
  by (simp add: rne_def Let_def)

lemma rne_upper: "of_int (rne y) \<le> y + 1 / 2"
proof -
  have a: "of_int \<lfloor>y\<rfloor> \<le> y" by simp
  show ?thesis
  proof (cases "y - of_int \<lfloor>y\<rfloor> < 1 / 2")
    case True
    then have "rne y = \<lfloor>y\<rfloor>" by (simp add: rne_def Let_def)
    then show ?thesis using a by linarith
  next
    case False
    then have "of_int (\<lfloor>y\<rfloor> + 1) \<le> y + 1 / 2" by simp
    moreover have "rne y \<le> \<lfloor>y\<rfloor> + 1" by (rule rne_le_floor1)
    then have "real_of_int (rne y) \<le> of_int (\<lfloor>y\<rfloor> + 1)" by (simp only: of_int_le_iff)
    ultimately show ?thesis by linarith
  qed
qed

lemma rne_mono: "y \<le> z \<Longrightarrow> rne y \<le> rne z"
proof -
  assume yz: "y \<le> z"
  have fl: "\<lfloor>y\<rfloor> \<le> \<lfloor>z\<rfloor>" using yz by (rule floor_mono)
  show ?thesis
  proof (cases "\<lfloor>y\<rfloor> = \<lfloor>z\<rfloor>")
    case True
    then show ?thesis using yz by (auto simp: rne_def Let_def)
  next
    case False
    then have "\<lfloor>y\<rfloor> + 1 \<le> \<lfloor>z\<rfloor>" using fl by simp
    then show ?thesis using rne_le_floor1 [of y] rne_floor_le [of z] by linarith
  qed
qed

lemma rne_minus: "rne (- y) = - rne y"
proof (cases "y = of_int \<lfloor>y\<rfloor>")
  case True
  then obtain n where "y = of_int n" ..
  then show ?thesis using rne_of_int [of "- n"] by (simp add: rne_of_int)
next
  case False
  then have lt: "of_int \<lfloor>y\<rfloor> < y" using of_int_floor_le [of y] by linarith
  have "\<lfloor>- y\<rfloor> = - \<lfloor>y\<rfloor> - 1"
    using lt by (intro floor_unique) (auto, linarith)
  then show ?thesis using lt by (auto simp: rne_def Let_def)
qed

subsection \<open>The exponent of the spacing\<close>

lemma uexp_minus: "uexp (- X) = uexp X"
  by (simp add: uexp_def)

lemma uexp_hi: "\<bar>X\<bar> < 2 ^ (uexp X + 24)"
proof -
  let ?N = "\<lfloor>\<bar>X\<bar>\<rfloor>"
  have "bitlen ?N \<le> int (uexp X + 24)" by (simp add: uexp_def)
  then have "?N < 2 ^ nat (int (uexp X + 24))"
    unfolding bitlen_le_iff_power by blast
  then have "?N < 2 ^ (uexp X + 24)"
    unfolding nat_int .
  then have "?N + 1 \<le> 2 ^ (uexp X + 24)" by simp
  then have "real_of_int (?N + 1) \<le> real_of_int (2 ^ (uexp X + 24))"
    by (rule of_int_le_iff [THEN iffD2])
  then have b: "real_of_int ?N + 1 \<le> 2 ^ (uexp X + 24)" by simp
  have a: "\<bar>X\<bar> < real_of_int ?N + 1"
    by linarith
  show ?thesis using a b by (rule less_le_trans)
qed

lemma uexp_lo: "0 < uexp X \<Longrightarrow> 2 ^ (uexp X + 23) \<le> \<bar>X\<bar>"
proof -
  assume pos: "0 < uexp X"
  let ?N = "\<lfloor>\<bar>X\<bar>\<rfloor>"
  have "int (uexp X + 24) \<le> bitlen ?N" using pos by (simp add: uexp_def)
  then have "2 ^ (nat (int (uexp X + 24)) - 1) \<le> ?N"
    unfolding bitlen_ge_iff_power by simp
  then have "2 ^ (uexp X + 23) \<le> ?N"
    unfolding nat_int by (simp add: add.commute)
  then have "real_of_int (2 ^ (uexp X + 23)) \<le> real_of_int ?N"
    by (rule of_int_le_iff [THEN iffD2])
  then have a: "2 ^ (uexp X + 23) \<le> real_of_int ?N" by simp
  have b: "real_of_int ?N \<le> \<bar>X\<bar>" by linarith
  show ?thesis using a b by (rule order_trans)
qed

lemma uexp_mono: "\<bar>X\<bar> \<le> \<bar>Y\<bar> \<Longrightarrow> uexp X \<le> uexp Y"
proof -
  assume "\<bar>X\<bar> \<le> \<bar>Y\<bar>"
  then have "\<lfloor>\<bar>X\<bar>\<rfloor> \<le> \<lfloor>\<bar>Y\<bar>\<rfloor>"
    by (rule floor_mono)
  then have "bitlen \<lfloor>\<bar>X\<bar>\<rfloor> \<le> bitlen \<lfloor>\<bar>Y\<bar>\<rfloor>"
    by (simp add: bitlen_def floorlog_mono)
  then show ?thesis by (simp add: uexp_def)
qed

lemma uexp_eqI: "2 ^ (e + 23) \<le> \<bar>X\<bar> \<Longrightarrow> \<bar>X\<bar> < 2 ^ (e + 24) \<Longrightarrow> uexp X = e"
proof -
  assume lo: "2 ^ (e + 23) \<le> \<bar>X\<bar>" and hi: "\<bar>X\<bar> < 2 ^ (e + 24)"
  let ?N = "\<lfloor>\<bar>X\<bar>\<rfloor>"
  have "real_of_int (2 ^ (e + 23)) \<le> \<bar>X\<bar>" using lo by simp
  then have l: "2 ^ (e + 23) \<le> ?N" by (simp only: le_floor_iff)
  have "\<bar>X\<bar> < real_of_int (2 ^ (e + 24))" using hi by simp
  then have h: "?N < 2 ^ (e + 24)" by (simp only: floor_less_iff)
  have "bitlen ?N \<le> int (e + 24)"
    unfolding bitlen_le_iff_power nat_int using h by simp
  moreover have "int (e + 24) \<le> bitlen ?N"
    unfolding bitlen_ge_iff_power nat_int using l by (simp add: add.commute)
  ultimately have "bitlen ?N = int e + 24" by simp
  then show ?thesis by (simp add: uexp_def)
qed

lemma uexp_zeroI: "\<bar>X\<bar> < 2 ^ 24 \<Longrightarrow> uexp X = 0"
proof -
  assume hi: "\<bar>X\<bar> < 2 ^ 24"
  let ?N = "\<lfloor>\<bar>X\<bar>\<rfloor>"
  have "\<bar>X\<bar> < real_of_int (2 ^ 24)" using hi by simp
  then have h: "?N < 2 ^ 24" by (simp only: floor_less_iff)
  have "bitlen ?N \<le> 24"
    unfolding bitlen_le_iff_power using h by simp
  then show ?thesis by (simp add: uexp_def)
qed


subsection \<open>Rounding on the scaled grid: monotone and idempotent\<close>

lemma rne_pow2: "rne (2 ^ n) = 2 ^ n"
  using rne_of_int [of "2 ^ n"] by simp

lemma rne_zero: "rne 0 = 0"
  using rne_of_int [of 0] by simp

lemma rgrid_minus: "rgrid (- X) = - rgrid X"
  by (simp add: rgrid_def uexp_minus rne_minus)

lemma rgrid_nonneg: "0 \<le> X \<Longrightarrow> 0 \<le> rgrid X"
proof -
  assume "0 \<le> X"
  then have "0 \<le> X / 2 ^ uexp X" by simp
  then have "0 \<le> rne (X / 2 ^ uexp X)" using rne_mono rne_zero by metis
  then show ?thesis by (simp add: rgrid_def)
qed

lemma rgrid_le_hi: "0 \<le> X \<Longrightarrow> rgrid X \<le> 2 ^ (uexp X + 24)"
proof -
  assume nn: "0 \<le> X"
  have "X < 2 ^ (uexp X + 24)" using uexp_hi [of X] nn by simp
  then have "X / 2 ^ uexp X \<le> 2 ^ 24"
    by (simp add: field_simps power_add)
  then have "rne (X / 2 ^ uexp X) \<le> 2 ^ 24" using rne_mono rne_pow2 by metis
  then have "real_of_int (rne (X / 2 ^ uexp X)) \<le> real_of_int (2 ^ 24)"
    by (rule of_int_le_iff [THEN iffD2])
  then have "real_of_int (rne (X / 2 ^ uexp X)) * 2 ^ uexp X \<le> 2 ^ 24 * 2 ^ uexp X"
    by simp
  then show ?thesis by (simp add: rgrid_def power_add mult.commute)
qed

lemma rgrid_ge_lo: "0 \<le> X \<Longrightarrow> 0 < uexp X \<Longrightarrow> 2 ^ (uexp X + 23) \<le> rgrid X"
proof -
  assume nn: "0 \<le> X" and pos: "0 < uexp X"
  have "2 ^ (uexp X + 23) \<le> X" using uexp_lo [OF pos] nn by simp
  then have "2 ^ 23 \<le> X / 2 ^ uexp X"
    by (simp add: field_simps power_add)
  then have "2 ^ 23 \<le> rne (X / 2 ^ uexp X)" using rne_mono rne_pow2 by metis
  then have "real_of_int (2 ^ 23) \<le> real_of_int (rne (X / 2 ^ uexp X))"
    by (rule of_int_le_iff [THEN iffD2])
  then have "2 ^ 23 * 2 ^ uexp X \<le> real_of_int (rne (X / 2 ^ uexp X)) * 2 ^ uexp X"
    by simp
  then show ?thesis by (simp add: rgrid_def power_add mult.commute)
qed

lemma rgrid_mono_nonneg: "0 \<le> X \<Longrightarrow> X \<le> Y \<Longrightarrow> rgrid X \<le> rgrid Y"
proof -
  assume nn: "0 \<le> X" and le: "X \<le> Y"
  have e: "uexp X \<le> uexp Y" using nn le by (intro uexp_mono) simp
  show ?thesis
  proof (cases "uexp X = uexp Y")
    case True
    have "X / 2 ^ uexp Y \<le> Y / 2 ^ uexp Y" using le by (simp add: divide_right_mono)
    then have "rne (X / 2 ^ uexp Y) \<le> rne (Y / 2 ^ uexp Y)" by (rule rne_mono)
    then have "real_of_int (rne (X / 2 ^ uexp Y)) \<le> real_of_int (rne (Y / 2 ^ uexp Y))"
      by (rule of_int_le_iff [THEN iffD2])
    then show ?thesis using True by (simp add: rgrid_def)
  next
    case False
    then have lt: "uexp X + 24 \<le> uexp Y + 23" and pos: "0 < uexp Y" using e by simp_all
    have "rgrid X \<le> 2 ^ (uexp X + 24)" using nn by (rule rgrid_le_hi)
    also have "\<dots> \<le> (2::real) ^ (uexp Y + 23)" using lt by (intro power_increasing) simp_all
    also have "\<dots> \<le> rgrid Y" using nn le pos by (intro rgrid_ge_lo) simp_all
    finally show ?thesis .
  qed
qed

lemma rgrid_mono: "X \<le> Y \<Longrightarrow> rgrid X \<le> rgrid Y"
proof -
  assume le: "X \<le> Y"
  consider "0 \<le> X" | "X < 0" "0 \<le> Y" | "Y < 0" by linarith
  then show ?thesis
  proof cases
    case 1
    then show ?thesis using le by (rule rgrid_mono_nonneg)
  next
    case 2
    have "0 \<le> rgrid (- X)" using 2 by (intro rgrid_nonneg) simp
    then have "rgrid X \<le> 0" by (simp add: rgrid_minus)
    moreover have "0 \<le> rgrid Y" using 2 by (intro rgrid_nonneg)
    ultimately show ?thesis by simp
  next
    case 3
    have "rgrid (- Y) \<le> rgrid (- X)" using 3 le by (intro rgrid_mono_nonneg) simp_all
    then show ?thesis by (simp add: rgrid_minus)
  qed
qed

lemma rgrid_fixI:
  assumes X: "X = real_of_int k * 2 ^ e" and lt: "\<bar>X\<bar> < 2 ^ (e + 24)"
  shows "rgrid X = X"
proof -
  have le: "uexp X \<le> e"
  proof (rule ccontr)
    assume "\<not> uexp X \<le> e"
    then have gt: "e + 24 \<le> uexp X + 23" and pos: "0 < uexp X" by simp_all
    have "(2::real) ^ (e + 24) \<le> 2 ^ (uexp X + 23)" using gt by (intro power_increasing) simp_all
    also have "\<dots> \<le> \<bar>X\<bar>" using pos by (rule uexp_lo)
    finally show False using lt by simp
  qed
  then obtain d where d: "e = uexp X + d" using le_Suc_ex by blast
  have "X / 2 ^ uexp X = real_of_int (k * 2 ^ d)"
    by (subst X, subst d) (simp add: power_add)
  then have "rne (X / 2 ^ uexp X) = k * 2 ^ d" by (simp only: rne_of_int)
  then have "rgrid X = real_of_int (k * 2 ^ d) * 2 ^ uexp X" by (simp add: rgrid_def)
  also have "\<dots> = X" by (subst (2) X, subst d) (simp add: power_add)
  finally show ?thesis .
qed

lemma rgrid_idem: "rgrid (rgrid X) = rgrid X"
proof -
  have nn: "rgrid (rgrid X) = rgrid X" if nn: "0 \<le> X" for X
  proof -
    let ?k = "rne (X / 2 ^ uexp X)"
    have R: "rgrid X = real_of_int ?k * 2 ^ uexp X" by (simp add: rgrid_def)
    have hi: "rgrid X \<le> 2 ^ (uexp X + 24)" using nn by (rule rgrid_le_hi)
    have R0: "0 \<le> rgrid X" using nn by (rule rgrid_nonneg)
    show ?thesis
    proof (cases "rgrid X = 2 ^ (uexp X + 24)")
      case True
      have "rgrid X = real_of_int (2 ^ 23) * 2 ^ (uexp X + 1)"
        by (simp add: True power_add)
      moreover have "\<bar>rgrid X\<bar> < 2 ^ (uexp X + 1 + 24)" by (simp add: True)
      ultimately show ?thesis by (rule rgrid_fixI)
    next
      case False
      then have "\<bar>rgrid X\<bar> < 2 ^ (uexp X + 24)" using hi R0 by simp
      with R show ?thesis by (rule rgrid_fixI)
    qed
  qed
  show ?thesis
  proof (cases "0 \<le> X")
    case True
    then show ?thesis by (rule nn)
  next
    case False
    then have "rgrid (rgrid (- X)) = rgrid (- X)" by (intro nn) simp
    then show ?thesis by (simp add: rgrid_minus)
  qed
qed

lemma rgrid_upper: "rgrid X \<le> X + 2 ^ uexp X / 2"
proof -
  have "of_int (rne (X / 2 ^ uexp X)) * 2 ^ uexp X \<le> (X / 2 ^ uexp X + 1 / 2) * (2::real) ^ uexp X"
    by (intro mult_right_mono rne_upper) simp
  then show ?thesis by (simp add: rgrid_def algebra_simps)
qed

subsection \<open>Rounding to binary32\<close>

lemma fscale_pos: "0 < fscale"
  by (simp add: fscale_def)

lemma fround_mono: "x \<le> y \<Longrightarrow> fround x \<le> fround y"
proof -
  assume "x \<le> y"
  then have "x * fscale \<le> y * fscale" using fscale_pos by simp
  then have "rgrid (x * fscale) \<le> rgrid (y * fscale)" by (rule rgrid_mono)
  then show ?thesis using fscale_pos by (simp add: fround_def divide_right_mono)
qed

lemma fround_idem: "fround (fround x) = fround x"
  using fscale_pos by (simp add: fround_def rgrid_idem)

lemma fround_minus: "fround (- x) = - fround x"
  by (simp add: fround_def rgrid_minus)

lemma fround_zero: "fround 0 = 0"
  using fround_minus [of 0] by simp

lemma fround_one: "fround 1 = 1"
proof -
  have "rgrid fscale = fscale"
  proof (rule rgrid_fixI)
    show "fscale = real_of_int 1 * 2 ^ 149" by (simp add: fscale_def)
    show "\<bar>fscale\<bar> < 2 ^ (149 + 24)" by (simp add: fscale_def)
  qed
  then show ?thesis using fscale_pos by (simp add: fround_def)
qed

lemma fround_nonneg: "0 \<le> x \<Longrightarrow> 0 \<le> fround x"
  using fround_mono [of 0 x] by (simp add: fround_zero)

lemma fround_nonpos: "x \<le> 0 \<Longrightarrow> fround x \<le> 0"
  using fround_mono [of x 0] by (simp add: fround_zero)

lemma fround_ge_one: "1 \<le> x \<Longrightarrow> 1 \<le> fround x"
  using fround_mono [of 1 x] by (simp add: fround_one)

lemma is_float_fround: "is_float (fround x)"
  by (simp add: is_float_def fround_idem)

lemma is_float_zero: "is_float 0"
  by (simp add: is_float_def fround_zero)

lemma is_float_one: "is_float 1"
  by (simp add: is_float_def fround_one)

lemma is_float_scaled: "is_float x \<Longrightarrow> \<exists>k::int. x * fscale = of_int k"
proof -
  assume "is_float x"
  then have "x * fscale = rgrid (x * fscale)"
    using fscale_pos by (simp add: is_float_def fround_def field_simps)
  also have "\<dots> = of_int (rne (x * fscale / 2 ^ uexp (x * fscale)) * 2 ^ uexp (x * fscale))"
    by (simp add: rgrid_def)
  finally show ?thesis by blast
qed

lemma is_float_minus: "is_float x \<Longrightarrow> is_float (- x)"
  by (simp add: is_float_def fround_minus)

lemma fround_ge_float: "is_float a \<Longrightarrow> a \<le> x \<Longrightarrow> a \<le> fround x"
  using fround_mono [of a x] by (simp add: is_float_def)

lemma fround_le_float: "is_float a \<Longrightarrow> x \<le> a \<Longrightarrow> fround x \<le> a"
  using fround_mono [of x a] by (simp add: is_float_def)

lemma fround_eqI:
  assumes lo: "2 ^ (e + 23) \<le> \<bar>x\<bar> * fscale" and hi: "\<bar>x\<bar> * fscale < 2 ^ (e + 24)"
  shows "fround x = real_of_int (rne (x * fscale / 2 ^ e)) * 2 ^ e / fscale"
proof -
  have a: "\<bar>x * fscale\<bar> = \<bar>x\<bar> * fscale" using fscale_pos by (simp add: abs_mult)
  have "uexp (x * fscale) = e" using lo hi unfolding a [symmetric] by (rule uexp_eqI)
  then show ?thesis by (simp add: fround_def rgrid_def)
qed

lemma fround_scaled:
  assumes k: "\<bar>k\<bar> < 2 ^ 24" and x: "x * fscale = real_of_int k * 2 ^ e"
  shows "fround x = x"
proof -
  have "\<bar>real_of_int k\<bar> < 2 ^ 24" using k
    by (metis of_int_abs of_int_less_numeral_power_cancel_iff)
  then have "\<bar>real_of_int k\<bar> * 2 ^ e < 2 ^ 24 * 2 ^ e" by simp
  moreover have "\<bar>x * fscale\<bar> = \<bar>real_of_int k\<bar> * 2 ^ e" unfolding x by (simp add: abs_mult)
  ultimately have "\<bar>x * fscale\<bar> < 2 ^ (e + 24)" by (simp only: power_add mult.commute)
  with x have "rgrid (x * fscale) = x * fscale" by (rule rgrid_fixI)
  then show ?thesis using fscale_pos by (simp add: fround_def)
qed

lemma fround_int: "\<bar>k\<bar> < 2 ^ 24 \<Longrightarrow> fround (real_of_int k) = real_of_int k"
  by (erule fround_scaled [where e = 149]) (simp add: fscale_def)

lemma fround_dyadic:
  assumes k: "\<bar>k\<bar> < 2 ^ 24" and n: "n \<le> 149"
  shows "fround (real_of_int k / 2 ^ n) = real_of_int k / 2 ^ n"
proof -
  obtain d where d: "149 = n + d" using n le_Suc_ex by blast
  show ?thesis using k
  proof (rule fround_scaled [where e = d])
    show "real_of_int k / 2 ^ n * fscale = real_of_int k * 2 ^ d"
      unfolding fscale_def d by (simp add: power_add)
  qed
qed

lemma fround_int_pow2:
  assumes k: "\<bar>k\<bar> < 2 ^ 24"
  shows "fround (real_of_int k * 2 ^ n) = real_of_int k * 2 ^ n"
  using k by (rule fround_scaled [where e = "n + 149"]) (simp add: fscale_def power_add)

text \<open>Two values as the hardware rounds them: \<open>0.1f\<close> is \<open>13421773 * 2^-27\<close>, and
  \<open>2^24 + 1\<close>, half way between two binary32 numbers, goes to the even one.\<close>

lemma fround_tenth: "fround (1 / 10) = 13421773 / 134217728"
  by (subst fround_eqI [where e = 122]) (simp_all add: fscale_def rne_def)

lemma fround_16777217: "fround 16777217 = 16777216"
  by (subst fround_eqI [where e = 150]) (simp_all add: fscale_def rne_def)

lemma fround_numeral: "(numeral n :: int) < 16777216 \<Longrightarrow> fround (numeral n) = numeral n"
  using fround_int [of "numeral n"] by simp

lemma fround_numeral_half:
  "(numeral n :: int) < 16777216 \<Longrightarrow> fround (numeral n / 2) = numeral n / 2"
  using fround_dyadic [of "numeral n" 1] by simp

section \<open>Properties of the values with infinities and NaN\<close>

lemma xfinite_not_nan: "xfinite a \<Longrightarrow> a \<noteq> NaN"
  by (cases a) simp_all

lemma xround_not_nan: "xround s r \<noteq> NaN"
  by (simp add: xround_def Let_def xinf_def)

lemma xround_finite:
  "\<bar>fround r\<bar> < 2 ^ 128 \<Longrightarrow> xfinite (xround s r) \<and> xval (xround s r) = fround r"
  by (simp add: xround_def Let_def)

lemma xneg_finite: "xfinite a \<Longrightarrow> xfinite (xneg a) \<and> xval (xneg a) = - xval a"
  by (cases a) simp_all

lemma xneg_not_nan: "a \<noteq> NaN \<Longrightarrow> xneg a \<noteq> NaN"
  by (cases a) simp_all

lemma xadd_finite:
  "xfinite a \<Longrightarrow> xfinite b \<Longrightarrow> xadd a b = xround (xsign a \<and> xsign b) (xval a + xval b)"
  by (simp add: xadd_def xfinite_not_nan)

lemma xadd_not_nan: "xfinite a \<Longrightarrow> b \<noteq> NaN \<Longrightarrow> xadd a b \<noteq> NaN"
  by (cases b) (simp_all add: xadd_def xround_not_nan xfinite_not_nan)

lemma xdiv_one_not_nan: "p \<noteq> NaN \<Longrightarrow> xdiv (Fin 1) p \<noteq> NaN"
  by (cases p) (simp_all add: xdiv_def xzero_def xround_not_nan xinf_def)

lemma xmul_finite_not_nan: "xfinite a \<Longrightarrow> xfinite b \<Longrightarrow> xmul a b \<noteq> NaN"
  by (simp add: xmul_def xround_not_nan xfinite_not_nan)

lemma xle_unit:
  "xle (Fin 0) a \<and> xle a (Fin 1) \<longleftrightarrow> xfinite a \<and> 0 \<le> xval a \<and> xval a \<le> 1"
  by (cases a) (simp_all add: xle_def)

lemma xle_finite: "xfinite a \<Longrightarrow> xfinite b \<Longrightarrow> xle a b \<longleftrightarrow> xval a \<le> xval b"
  by (simp add: xle_def xfinite_not_nan)

lemma xeq_one: "xeq a (Fin 1) \<longleftrightarrow> xfinite a \<and> xval a = 1"
  by (cases a) (simp_all add: xeq_def)

lemma xeq_zero: "xeq a (Fin 0) \<longleftrightarrow> xfinite a \<and> xval a = 0"
  by (cases a) (simp_all add: xeq_def)

lemma fround_abs_le_two: "\<bar>r\<bar> \<le> 2 \<Longrightarrow> \<bar>fround r\<bar> \<le> 2"
proof -
  assume r: "\<bar>r\<bar> \<le> 2"
  have two: "fround 2 = 2" using fround_numeral [of "num.Bit0 num.One"] by simp
  have "fround r \<le> fround 2" using r by (intro fround_mono) simp
  moreover have "fround (- 2) \<le> fround r" using r by (intro fround_mono) simp
  ultimately show ?thesis by (simp add: fround_minus two)
qed

section \<open>The fader keeps its multiplier in the unit interval\<close>

lemma qx_clamp_float_unit:
  "v \<noteq> NaN \<Longrightarrow>
     xle (Fin 0) (qx_clamp_float v (Fin 0) (Fin 1)) \<and> xle (qx_clamp_float v (Fin 0) (Fin 1)) (Fin 1)"
  by (cases v) (auto simp: qx_clamp_float_def xlt_def xle_def)

lemma qx_clamp_float_finite:
  "xfinite w \<Longrightarrow> xfinite (qx_clamp_float w (Fin 0) (Fin 1)) \<and>
     xval (qx_clamp_float w (Fin 0) (Fin 1)) = max 0 (min 1 (xval w))"
  by (cases w) (auto simp: qx_clamp_float_def xlt_def)

lemma qx_fader_fade_fields:
  "step (snd (qx_fader_fade s v)) = step s" "enabled (snd (qx_fader_fade s v)) = enabled s"
  by (simp_all add: qx_fader_fade_def Let_def)

lemma qx_fader_fade_result:
  "fst (qx_fader_fade s v) = xmul v (fade (snd (qx_fader_fade s v)))"
  by (simp add: qx_fader_fade_def Let_def)

lemma qx_fader_fade_range:
  assumes "xle (Fin 0) (fade s)" "xle (fade s) (Fin 1)" "step s \<noteq> NaN"
  shows "xle (Fin 0) (fade (snd (qx_fader_fade s v))) \<and> xle (fade (snd (qx_fader_fade s v))) (Fin 1)"
proof -
  have f: "xfinite (fade s)" using assms(1,2) xle_unit [of "fade s"] by simp
  have "(if enabled s then step s else xneg (step s)) \<noteq> NaN"
    using assms(3) by (simp add: xneg_not_nan)
  then have "xadd (fade s) (if enabled s then step s else xneg (step s)) \<noteq> NaN"
    using f by (rule xadd_not_nan [rotated])
  then show ?thesis
    using qx_clamp_float_unit by (simp add: qx_fader_fade_def Let_def)
qed

lemma qx_fader_enable_range:
  "xle (Fin 0) (fade (qx_fader_enable s b)) \<and> xle (fade (qx_fader_enable s b)) (Fin 1)"
  by (simp add: qx_fader_enable_def xle_def)

lemma qx_fader_enable_fields:
  "step (qx_fader_enable s b) = step s" "enabled (qx_fader_enable s b) = b"
  "fade (qx_fader_enable s b) = (if b then Fin 0 else Fin 1)"
  by (simp_all add: qx_fader_enable_def)

lemma fader_calls_range:
  "(c, out, s') \<in> set (fader_calls s cs) \<Longrightarrow> step s \<noteq> NaN \<Longrightarrow>
     xle (Fin 0) (fade s) \<Longrightarrow> xle (fade s) (Fin 1) \<Longrightarrow>
     xle (Fin 0) (fade s') \<and> xle (fade s') (Fin 1) \<and>
     (\<forall>v. c = Fade v \<longrightarrow> out = Some (xmul v (fade s')))"
proof (induction s cs rule: fader_calls.induct)
  case (1 s)
  then show ?case by simp
next
  case (2 s b cs)
  let ?s1 = "qx_fader_enable s b"
  have r: "xle (Fin 0) (fade ?s1)" "xle (fade ?s1) (Fin 1)" "step ?s1 \<noteq> NaN"
    using qx_fader_enable_range [of s b] "2.prems"(2) by (simp_all add: qx_fader_enable_fields)
  from "2.prems"(1) have "(c, out, s') = (Enable b, None, ?s1) \<or> (c, out, s') \<in> set (fader_calls ?s1 cs)"
    by (simp add: Let_def)
  then show ?case
  proof
    assume "(c, out, s') = (Enable b, None, ?s1)"
    then show ?thesis using r by simp
  next
    assume "(c, out, s') \<in> set (fader_calls ?s1 cs)"
    then show ?thesis using r by (intro "2.IH" [OF refl])
  qed
next
  case (3 s v cs)
  obtain y s1 where q: "qx_fader_fade s v = (y, s1)" by (cases "qx_fader_fade s v")
  have r: "xle (Fin 0) (fade s1)" "xle (fade s1) (Fin 1)"
    using qx_fader_fade_range [OF "3.prems"(3,4,2), of v] by (simp_all add: q)
  have n: "step s1 \<noteq> NaN" using qx_fader_fade_fields(1) [of s v] "3.prems"(2) by (simp add: q)
  have y: "y = xmul v (fade s1)" using qx_fader_fade_result [of s v] by (simp add: q)
  from "3.prems"(1) have "(c, out, s') = (Fade v, Some y, s1) \<or> (c, out, s') \<in> set (fader_calls s1 cs)"
    by (simp add: q)
  then show ?case
  proof
    assume "(c, out, s') = (Fade v, Some y, s1)"
    then show ?thesis using r y by simp
  next
    assume "(c, out, s') \<in> set (fader_calls s1 cs)"
    then show ?thesis using r n by (intro "3.IH" [OF refl q [symmetric]])
  qed
qed

lemma qx_fader_init_step:
  assumes "is_finite32 fadeTime" "is_finite32 sample_rate"
  shows "step (qx_fader_init fadeTime sample_rate) \<noteq> NaN"
proof (cases "xle fadeTime (Fin 0)")
  case True
  then show ?thesis by (simp add: qx_fader_init_def)
next
  case False
  have ft: "xfinite fadeTime" "is_float (xval fadeTime)" "\<bar>xval fadeTime\<bar> < 2 ^ 128"
    using assms(1) by (simp_all add: is_finite32_def)
  have pos: "0 < xval fadeTime" using False ft(1) by (simp add: xle_finite)
  have "0 \<le> fround (xval fadeTime / 1000)" using pos by (intro fround_nonneg) simp
  moreover have "fround (xval fadeTime / 1000) \<le> xval fadeTime"
    using ft(2) pos by (intro fround_le_float) simp_all
  ultimately have b: "\<bar>fround (xval fadeTime / 1000)\<bar> < 2 ^ 128" using ft(3) by simp
  have "xdiv fadeTime (Fin 1000) = xround (xsign fadeTime \<noteq> False) (xval fadeTime / 1000)"
    using ft(1) by (simp add: xdiv_def xzero_def xfinite_not_nan)
  then have "xfinite (xdiv fadeTime (Fin 1000))" using xround_finite [OF b] by simp
  moreover have "xfinite sample_rate" using assms(2) by (simp add: is_finite32_def)
  ultimately have "xmul (xdiv fadeTime (Fin 1000)) sample_rate \<noteq> NaN"
    by (rule xmul_finite_not_nan)
  then have "xdiv (Fin 1) (xmul (xdiv fadeTime (Fin 1000)) sample_rate) \<noteq> NaN"
    by (rule xdiv_one_not_nan)
  then show ?thesis using False by (simp add: qx_fader_init_def)
qed

text \<open>
  Claim C4, as amended. For every fader that \<open>qx_fader_init\<close> produces with a step that is
  not NaN, and every finite sequence of \<open>qx_fader_enable\<close> and \<open>qx_fader_fade\<close> calls,
  \<open>0 \<le> fade \<le> 1\<close> holds at the start and after each call, and every \<open>qx_fader_fade val\<close>
  returns the binary32 product of \<open>val\<close> and the updated fade value. The step is not NaN
  when \<open>fadeTime\<close> and \<open>sample_rate\<close> are finite; it can then be infinite, as for a sample
  rate of zero.
\<close>

theorem fader_fade_in_unit_interval:
  "(is_finite32 fadeTime \<and> is_finite32 sample_rate \<longrightarrow>
      step (qx_fader_init fadeTime sample_rate) \<noteq> NaN) \<and>
   (step (qx_fader_init fadeTime sample_rate) \<noteq> NaN \<longrightarrow>
      xle (Fin 0) (fade (qx_fader_init fadeTime sample_rate)) \<and>
      xle (fade (qx_fader_init fadeTime sample_rate)) (Fin 1) \<and>
      (\<forall>(c, out, s) \<in> set (fader_calls (qx_fader_init fadeTime sample_rate) cs).
         xle (Fin 0) (fade s) \<and> xle (fade s) (Fin 1) \<and>
         (\<forall>v. c = Fade v \<longrightarrow> out = Some (xmul v (fade s)))))"
proof -
  let ?s = "qx_fader_init fadeTime sample_rate"
  have i: "xle (Fin 0) (fade ?s)" "xle (fade ?s) (Fin 1)"
    by (simp_all add: qx_fader_init_def xle_def)
  have "xle (Fin 0) (fade s) \<and> xle (fade s) (Fin 1) \<and> (\<forall>v. c = Fade v \<longrightarrow> out = Some (xmul v (fade s)))"
    if "step ?s \<noteq> NaN" "(c, out, s) \<in> set (fader_calls ?s cs)" for c out s
    using that(2,1) i by (rule fader_calls_range)
  then show ?thesis using i qx_fader_init_step [of fadeTime sample_rate] by auto
qed

lemma qx_fader_init_zero_rate:
  "qx_fader_init (Fin 1000) (Fin 0) = \<lparr>fade = Fin 0, step = PosInf, enabled = False\<rparr>"
  by (simp add: qx_fader_init_def xle_def xdiv_def xmul_def xzero_def xround_def xinf_def
      fround_one fround_zero)

theorem fader_fade_in_unit_interval_witness:
  "is_finite32 (Fin 1000) \<and> is_finite32 (Fin 0) \<and>
   qx_fader_init (Fin 1000) (Fin 0) = \<lparr>fade = Fin 0, step = PosInf, enabled = False\<rparr> \<and>
   PosInf \<noteq> NaN \<and>
   fader_calls \<lparr>fade = Fin 0, step = PosInf, enabled = False\<rparr> [Enable True, Fade (Fin 2)] =
     [(Enable True, None, \<lparr>fade = Fin 0, step = PosInf, enabled = True\<rparr>),
      (Fade (Fin 2), Some (Fin 2), \<lparr>fade = Fin 1, step = PosInf, enabled = True\<rparr>)] \<and>
   xle (Fin 0) (Fin 1) \<and> xle (Fin 1) (Fin 1) \<and> Some (Fin 2) = Some (xmul (Fin 2) (Fin 1))"
proof -
  let ?s0 = "\<lparr>fade = Fin 0, step = PosInf, enabled = False\<rparr>"
  let ?s2 = "\<lparr>fade = Fin 1, step = PosInf, enabled = True\<rparr>"
  have a: "is_finite32 (Fin 1000)" "is_finite32 (Fin 0)"
    by (simp_all add: is_finite32_def is_float_def fround_numeral fround_zero)
  have i: "qx_fader_init (Fin 1000) (Fin 0) = ?s0" by (rule qx_fader_init_zero_rate)
  have two: "fround 2 = 2" using fround_numeral [of "num.Bit0 num.One"] by simp
  have t: "fader_calls ?s0 [Enable True, Fade (Fin 2)] =
     [(Enable True, None, \<lparr>fade = Fin 0, step = PosInf, enabled = True\<rparr>), (Fade (Fin 2), Some (Fin 2), ?s2)]"
    by (simp add: qx_fader_enable_def qx_fader_fade_def qx_clamp_float_def xadd_def xmul_def
        xlt_def xround_def two)
  have m: "(Fade (Fin 2), Some (Fin 2), ?s2) \<in> set (fader_calls ?s0 [Enable True, Fade (Fin 2)])"
    unfolding t by simp
  have n: "step (qx_fader_init (Fin 1000) (Fin 0)) \<noteq> NaN"
    using fader_fade_in_unit_interval [of "Fin 1000" "Fin 0" "[]"] a by simp
  from fader_fade_in_unit_interval [of "Fin 1000" "Fin 0" "[Enable True, Fade (Fin 2)]"] n m
  have "xle (Fin 0) (fade ?s2) \<and> xle (fade ?s2) (Fin 1) \<and> Some (Fin 2) = Some (xmul (Fin 2) (fade ?s2))"
    unfolding i by fastforce
  with a i t show ?thesis by simp
qed

text \<open>
  An argument that is NaN gives a fader whose step is NaN, and so do an infinite \<open>fadeTime\<close>
  with a sample rate of zero: \<open>inf * 0\<close> is NaN. The first fade call then stores NaN in
  \<open>fade\<close>: the sum is NaN, both comparisons of the clamp are false, and the clamp returns
  its argument. NaN is not in the unit interval.
\<close>

lemma fader_scenario_nan:
  "step (qx_fader_init a b) = NaN \<Longrightarrow> fader_scenario a b True [v] = NaN"
  by (simp add: fader_scenario_def qx_fader_enable_def qx_fader_fade_def Let_def xadd_def
      qx_clamp_float_def xlt_def)

theorem fader_nan_step_counterexample:
  "fader_scenario NaN (Fin 48000) True [Fin 1] = NaN \<and>
   fader_scenario PosInf (Fin 0) True [Fin 1] = NaN \<and>
   \<not> xle (Fin 0) NaN \<and> \<not> xle NaN (Fin 1)"
proof -
  have "step (qx_fader_init NaN (Fin 48000)) = NaN"
    by (simp add: qx_fader_init_def xle_def xdiv_def xmul_def)
  moreover have "step (qx_fader_init PosInf (Fin 0)) = NaN"
    by (simp add: qx_fader_init_def xle_def xdiv_def xmul_def xzero_def xinf_def)
  ultimately show ?thesis by (simp add: fader_scenario_nan xle_def)
qed

section \<open>The smoother never divides by zero\<close>

lemma float_of_nat_pos: "1 \<le> n \<Longrightarrow> 1 \<le> float_of_nat n"
  unfolding float_of_nat_def by (rule fround_ge_one) simp

lemma qx_smoother_init_frames: "1 \<le> frames (qx_smoother_init initial n)"
  by (simp add: qx_smoother_init_def)

lemma qx_smoother_next_fields:
  "target (snd (qx_smoother_next s)) = target s"
  "step_s (snd (qx_smoother_next s)) = step_s s"
  "frames (snd (qx_smoother_next s)) = frames s"
  by (simp_all add: qx_smoother_next_def Let_def)

lemma qx_smoother_next_result: "fst (qx_smoother_next s) = current (snd (qx_smoother_next s))"
  by (simp add: qx_smoother_next_def Let_def)

lemma qx_smoother_set_target_Some:
  assumes "qx_smoother_set_target s t = Some s'"
  shows "current s' = current s" "target s' = t" "frames s' = frames s"
    "float_of_nat (frames s) \<noteq> 0"
    "step_s s' = fround (fsub t (current s) / float_of_nat (frames s))"
  using assms by (auto simp: qx_smoother_set_target_def fdiv_def Let_def split: if_splits)

lemma qx_smoother_set_target_defined:
  assumes "1 \<le> frames s"
  shows "\<exists>s'. qx_smoother_set_target s t = Some s' \<and> frames s' = frames s"
proof -
  have "float_of_nat (frames s) \<noteq> 0" using float_of_nat_pos [OF assms] by simp
  then show ?thesis by (simp add: qx_smoother_set_target_def fdiv_def Let_def)
qed

lemma smoother_calls_defined:
  "1 \<le> frames s \<Longrightarrow> \<exists>s'. smoother_calls s cs = Some s' \<and> frames s' = frames s"
proof (induction s cs rule: smoother_calls.induct)
  case (1 s)
  then show ?case by simp
next
  case (2 s t cs)
  obtain s1 where s1: "qx_smoother_set_target s t = Some s1" "frames s1 = frames s"
    using qx_smoother_set_target_defined [OF "2.prems"] by blast
  then show ?case using "2.IH" [of s1] "2.prems" by simp
next
  case (3 s cs)
  then show ?case by (simp add: qx_smoother_next_fields)
next
  case (4 s cs)
  then show ?case by simp
qed

text \<open>
  Claim C9. After \<open>qx_smoother_init\<close> the field \<open>frames\<close> is at least 1, a frame count
  of 0 becoming 1; no call changes \<open>frames\<close>; and in every sequence of set-target, next
  and get calls that follows init each \<open>qx_smoother_set_target\<close> has a result: its
  division by \<open>(float)frames\<close> never divides by zero.
\<close>

theorem smoother_frames_never_zero:
  "1 \<le> frames (qx_smoother_init initial n) \<and>
   frames (qx_smoother_init initial 0) = 1 \<and>
   (\<exists>s'. smoother_calls (qx_smoother_init initial n) cs = Some s' \<and>
         frames s' = frames (qx_smoother_init initial n))"
  using smoother_calls_defined [OF qx_smoother_init_frames, of initial n cs]
  by (simp add: qx_smoother_init_def)

section \<open>The smoother ramp\<close>

lemma smoother_nexts_snd_Suc:
  "snd (smoother_nexts (Suc n) s) = snd (smoother_nexts n (snd (qx_smoother_next s)))"
  by (simp add: Let_def split: prod.splits)

lemma smoother_nexts_fst_Suc:
  "fst (smoother_nexts (Suc n) s) =
     fst (qx_smoother_next s) # fst (smoother_nexts n (snd (qx_smoother_next s)))"
  by (simp add: Let_def split: prod.splits)

lemma smoother_nexts_snoc:
  "snd (smoother_nexts (Suc n) s) = snd (qx_smoother_next (snd (smoother_nexts n s)))"
proof (induction n arbitrary: s)
  case 0
  then show ?case by (simp add: Let_def split: prod.splits)
next
  case (Suc n)
  show ?case
    by (subst smoother_nexts_snd_Suc, subst Suc.IH, subst smoother_nexts_snd_Suc [symmetric]) simp
qed

lemma smoother_nexts_fields:
  "target (snd (smoother_nexts n s)) = target s \<and>
   step_s (snd (smoother_nexts n s)) = step_s s \<and>
   frames (snd (smoother_nexts n s)) = frames s"
proof (induction n)
  case 0
  then show ?case by simp
next
  case (Suc n)
  then show ?case by (simp only: smoother_nexts_snoc qx_smoother_next_fields) 
qed

lemma smoother_nexts_values:
  "fst (smoother_nexts n s) = map (\<lambda>k. current (snd (smoother_nexts (Suc k) s))) [0..<n]"
proof (induction n arbitrary: s)
  case 0
  then show ?case by simp
next
  case (Suc n)
  have "[0..<Suc n] = 0 # [Suc 0..<Suc n]" by (rule upt_conv_Cons) simp
  then have "[0..<Suc n] = 0 # map Suc [0..<n]" by (simp only: map_Suc_upt)
  then show ?case
    by (simp only: smoother_nexts_fst_Suc Suc.IH list.map map_map o_def
        smoother_nexts_snd_Suc [symmetric] qx_smoother_next_result)
      (simp add: Let_def split: prod.splits)
qed

lemma qx_smoother_next_bounded:
  "(0 < step_s s \<longrightarrow> current s \<le> target s \<longrightarrow> current (snd (qx_smoother_next s)) \<le> target s) \<and>
   (step_s s < 0 \<longrightarrow> target s \<le> current s \<longrightarrow> target s \<le> current (snd (qx_smoother_next s))) \<and>
   (step_s s = 0 \<longrightarrow> is_float (current s) \<longrightarrow> current (snd (qx_smoother_next s)) = current s) \<and>
   (current s = target s \<longrightarrow> current (snd (qx_smoother_next s)) = target s)"
  by (auto simp: qx_smoother_next_def Let_def fadd_def is_float_def)


lemma smoother_nexts_add:
  "snd (smoother_nexts (n + m) s) = snd (smoother_nexts m (snd (smoother_nexts n s)))"
proof (induction n arbitrary: s)
  case 0
  then show ?case by simp
next
  case (Suc n)
  show ?case
    by (simp only: add_Suc smoother_nexts_snd_Suc Suc.IH)
qed

lemma smoother_nexts_bounded:
  "(0 < step_s s \<longrightarrow> current s \<le> target s \<longrightarrow> current (snd (smoother_nexts n s)) \<le> target s) \<and>
   (step_s s < 0 \<longrightarrow> target s \<le> current s \<longrightarrow> target s \<le> current (snd (smoother_nexts n s))) \<and>
   (current s = target s \<longrightarrow> current (snd (smoother_nexts n s)) = target s)"
proof (induction n)
  case 0
  then show ?case by simp
next
  case (Suc n)
  let ?s = "snd (smoother_nexts n s)"
  have f: "target ?s = target s" "step_s ?s = step_s s"
    using smoother_nexts_fields [of n s] by simp_all
  show ?case
    using Suc.IH qx_smoother_next_bounded [of ?s]
    by (simp only: smoother_nexts_snoc f) blast
qed

lemma set_target_direction:
  assumes "qx_smoother_set_target s t = Some s'"
  shows "(0 < step_s s' \<longrightarrow> current s \<le> t) \<and> (step_s s' < 0 \<longrightarrow> t \<le> current s)"
proof -
  note f = qx_smoother_set_target_Some [OF assms]
  let ?F = "float_of_nat (frames s)"
  have F: "0 < ?F" using f(4) fround_nonneg [of "real (frames s)"]
    by (simp add: float_of_nat_def)
  have a: "step_s s' \<le> 0" if "t \<le> current s"
  proof -
    have "fsub t (current s) \<le> 0" unfolding fsub_def using that by (intro fround_nonpos) simp
    then have "fsub t (current s) / ?F \<le> 0" using F by (simp add: divide_le_0_iff)
    then show ?thesis unfolding f(5) by (rule fround_nonpos)
  qed
  have b: "0 \<le> step_s s'" if "current s \<le> t"
  proof -
    have "0 \<le> fsub t (current s)" unfolding fsub_def using that by (intro fround_nonneg) simp
    then have "0 \<le> fsub t (current s) / ?F" using F by simp
    then show ?thesis unfolding f(5) by (rule fround_nonneg)
  qed
  show ?thesis using a b by force
qed

lemma smoother_nexts_exact:
  assumes tgt: "target s = current s + real N * step_s s"
    and fl: "\<forall>k\<in>{1..N}. is_float (current s + real k * step_s s)"
    and k: "k \<le> N"
  shows "current (snd (smoother_nexts k s)) = current s + real k * step_s s"
  using k
proof (induction k)
  case 0
  then show ?case by simp
next
  case (Suc k)
  let ?s = "snd (smoother_nexts k s)"
  let ?d = "step_s s"
  have f: "target ?s = target s" "step_s ?s = ?d"
    using smoother_nexts_fields [of k s] by simp_all
  have c: "current ?s = current s + real k * ?d" using Suc by simp
  have fk: "fround (current s + real (Suc k) * ?d) = current s + real (Suc k) * ?d"
  proof -
    have "Suc k \<in> {1..N}" using Suc.prems by simp
    with fl have "is_float (current s + real (Suc k) * ?d)" by (rule bspec)
    then show ?thesis by (simp only: is_float_def)
  qed
  have kN: "real (Suc k) \<le> real N" using Suc.prems by simp
  show ?case
  proof (cases "current ?s = target ?s")
    case True
    then have "real k * ?d = real N * ?d" using c f tgt by simp
    then have "?d = 0" using Suc.prems by simp
    then show ?thesis using True c
      by (simp only: smoother_nexts_snoc) (simp add: qx_smoother_next_def)
  next
    case False
    have up: "\<not> (0 < ?d \<and> target s < current s + real (Suc k) * ?d)"
    proof
      assume h: "0 < ?d \<and> target s < current s + real (Suc k) * ?d"
      then have d: "0 \<le> ?d" by simp
      have "real (Suc k) * ?d \<le> real N * ?d" by (rule mult_right_mono [OF kN d])
      then show False using h tgt by linarith
    qed
    have dn: "\<not> (?d < 0 \<and> current s + real (Suc k) * ?d < target s)"
    proof
      assume h: "?d < 0 \<and> current s + real (Suc k) * ?d < target s"
      then have d: "?d \<le> 0" by simp
      have "real N * ?d \<le> real (Suc k) * ?d" by (rule mult_right_mono_neg [OF kN d])
      then show False using h tgt by linarith
    qed
    have "fadd (current ?s) ?d = current s + real (Suc k) * ?d"
      unfolding fadd_def c using fk by (simp add: algebra_simps)
    then show ?thesis using False up dn f
      by (simp only: smoother_nexts_snoc) (simp add: qx_smoother_next_def Let_def)
  qed
qed


lemma smoother_example_5_9: "smoother_scenario 5 4 9 5 = Some [6, 7, 8, 9, 9]"
  by (simp add: smoother_scenario_def qx_smoother_init_def qx_smoother_set_target_def
      qx_smoother_next_def fdiv_def fsub_def fadd_def float_of_nat_def fround_numeral fround_one
      eval_nat_numeral Let_def)

text \<open>
  Claim C2, as amended. After \<open>qx_smoother_set_target s t\<close>, no later call of
  \<open>qx_smoother_next\<close> moves \<open>current\<close> past \<open>t\<close> in the direction of \<open>step\<close>, and
  once \<open>current\<close> equals \<open>t\<close> it stays there. When the ramp is exact (\<open>frames\<close> steps
  lead from the current value to \<open>t\<close>, and every value on the way is a binary32
  number), \<open>current\<close> equals \<open>t\<close> after \<open>frames\<close> calls and from then on. The calls
  return the successive values of \<open>current\<close>. In particular init(5, 4) and setTarget(9)
  give 6, 7, 8, 9 on four calls and 9 again on the fifth.
\<close>

theorem smoother_next_never_overshoots:
  assumes "qx_smoother_set_target s t = Some s'"
  shows "(0 < step_s s' \<longrightarrow> current (snd (smoother_nexts n s')) \<le> t) \<and>
    (step_s s' < 0 \<longrightarrow> t \<le> current (snd (smoother_nexts n s'))) \<and>
    (current (snd (smoother_nexts n s')) = t \<longrightarrow> current (snd (smoother_nexts (n + m) s')) = t) \<and>
    (t = current s + real (frames s) * step_s s' \<longrightarrow>
       (\<forall>k\<in>{1..frames s}. is_float (current s + real k * step_s s')) \<longrightarrow>
       frames s \<le> n \<longrightarrow> current (snd (smoother_nexts n s')) = t) \<and>
    fst (smoother_nexts n s') = map (\<lambda>k. current (snd (smoother_nexts (Suc k) s'))) [0..<n] \<and>
    smoother_scenario 5 4 9 5 = Some [6, 7, 8, 9, 9]"
proof -
  note f = qx_smoother_set_target_Some [OF assms]
  note d = set_target_direction [OF assms]
  have stay: "current (snd (smoother_nexts k s')) = t \<longrightarrow>
      current (snd (smoother_nexts (k + j) s')) = t" for k j
  proof
    assume h: "current (snd (smoother_nexts k s')) = t"
    let ?s = "snd (smoother_nexts k s')"
    have "target ?s = t" using smoother_nexts_fields [of k s'] f(2) by simp
    then show "current (snd (smoother_nexts (k + j) s')) = t"
      using smoother_nexts_bounded [of ?s j] h by (simp add: smoother_nexts_add)
  qed
  have reach: "current (snd (smoother_nexts n s')) = t"
    if e: "t = current s + real (frames s) * step_s s'"
      and fl: "\<forall>k\<in>{1..frames s}. is_float (current s + real k * step_s s')"
      and n: "frames s \<le> n"
  proof -
    have tgt: "target s' = current s' + real (frames s) * step_s s'"
      using e by (simp only: f(1,2))
    have fl': "\<forall>k\<in>{1..frames s}. is_float (current s' + real k * step_s s')"
      using fl by (simp only: f(1))
    have "current (snd (smoother_nexts (frames s) s')) =
        current s' + real (frames s) * step_s s'"
      using tgt fl' by (rule smoother_nexts_exact) simp
    then have "current (snd (smoother_nexts (frames s) s')) = t"
      by (simp only: tgt [symmetric] f(2))
    then have "current (snd (smoother_nexts (frames s + (n - frames s)) s')) = t"
      using stay by blast
    then show ?thesis using n by simp
  qed
  have b: "(0 < step_s s' \<longrightarrow> current (snd (smoother_nexts n s')) \<le> t) \<and>
      (step_s s' < 0 \<longrightarrow> t \<le> current (snd (smoother_nexts n s')))"
    using smoother_nexts_bounded [of s' n] d by (simp only: f(1,2)) blast
  have r: "t = current s + real (frames s) * step_s s' \<longrightarrow>
       (\<forall>k\<in>{1..frames s}. is_float (current s + real k * step_s s')) \<longrightarrow>
       frames s \<le> n \<longrightarrow> current (snd (smoother_nexts n s')) = t"
    using reach by blast
  show ?thesis
    using b stay [of n m] r smoother_nexts_values [of n s'] smoother_example_5_9
    by (intro conjI) blast+
qed

lemma is_float_small_nat: "n < 16777216 \<Longrightarrow> is_float (real n)"
  using fround_int [of "int n"] by (simp add: is_float_def)

lemma smoother_set_target_5_9:
  "qx_smoother_set_target (qx_smoother_init 5 4) 9 =
     Some \<lparr>current = 5, target = 9, step_s = 1, frames = 4\<rparr>"
  by (simp add: qx_smoother_init_def qx_smoother_set_target_def fdiv_def fsub_def
      float_of_nat_def fround_numeral fround_one)

lemma smoother_set_target_9_5:
  "qx_smoother_set_target (qx_smoother_init 9 4) 5 =
     Some \<lparr>current = 9, target = 5, step_s = - 1, frames = 4\<rparr>"
  by (simp add: qx_smoother_init_def qx_smoother_set_target_def fdiv_def fsub_def
      float_of_nat_def fround_numeral fround_one fround_minus)

theorem smoother_next_never_overshoots_witness:
  "qx_smoother_set_target (qx_smoother_init 5 4) 9 =
     Some \<lparr>current = 5, target = 9, step_s = 1, frames = 4\<rparr> \<and>
   current (snd (smoother_nexts 4 \<lparr>current = 5, target = 9, step_s = 1, frames = 4\<rparr>)) = 9 \<and>
   current (snd (smoother_nexts 5 \<lparr>current = 5, target = 9, step_s = 1, frames = 4\<rparr>)) = 9 \<and>
   qx_smoother_set_target (qx_smoother_init 9 4) 5 =
     Some \<lparr>current = 9, target = 5, step_s = - 1, frames = 4\<rparr> \<and>
   5 \<le> current (snd (smoother_nexts 3 \<lparr>current = 9, target = 5, step_s = - 1, frames = 4\<rparr>))"
proof -
  let ?up = "\<lparr>current = 5, target = 9, step_s = 1, frames = 4\<rparr>"
  let ?dn = "\<lparr>current = 9, target = 5, step_s = - 1, frames = 4\<rparr>"
  have fl: "\<forall>k\<in>{1..frames (qx_smoother_init 5 4)}. is_float (current (qx_smoother_init 5 4) + real k * step_s ?up)"
  proof
    fix k assume "k \<in> {1..frames (qx_smoother_init 5 4)}"
    then have "5 + k < 16777216" by (simp add: qx_smoother_init_def)
    then have "is_float (real (5 + k))" by (rule is_float_small_nat)
    then show "is_float (current (qx_smoother_init 5 4) + real k * step_s ?up)"
      by (simp add: qx_smoother_init_def)
  qed
  have e: "9 = current (qx_smoother_init 5 4) + real (frames (qx_smoother_init 5 4)) * step_s ?up"
    by (simp add: qx_smoother_init_def)
  have n: "frames (qx_smoother_init 5 4) \<le> 4" by (simp add: qx_smoother_init_def)
  have u4: "current (snd (smoother_nexts 4 ?up)) = 9"
    using smoother_next_never_overshoots [OF smoother_set_target_5_9, of 4 1] e fl n by blast
  then have u5: "current (snd (smoother_nexts 5 ?up)) = 9"
    using smoother_next_never_overshoots [OF smoother_set_target_5_9, of 4 1] by simp
  have d3: "5 \<le> current (snd (smoother_nexts 3 ?dn))"
    using smoother_next_never_overshoots [OF smoother_set_target_9_5, of 3 0] by simp
  show ?thesis using u4 u5 d3 smoother_set_target_5_9 smoother_set_target_9_5 by simp
qed

text \<open>
  Twelve frames from 0 to 1: the step is \<open>1/12\<close> rounded to binary32, the sums are
  rounded on the way, and the twelfth value is \<open>1 - 2^-23\<close>, not 1.
\<close>

lemma fround_twelfths:
  shows "fround (1 / 12) = 11184811 / 134217728"
    and "fround (11184811 / 134217728) = 11184811 / 134217728"
    and "fround (11184811 / 67108864) = 11184811 / 67108864"
    and "fround (33554433 / 134217728) = 1 / 4"
    and "fround (44739243 / 134217728) = 11184811 / 33554432"
    and "fround (55924055 / 134217728) = 6990507 / 16777216"
    and "fround (67108867 / 134217728) = 1 / 2"
    and "fround (78293675 / 134217728) = 9786709 / 16777216"
    and "fround (89478483 / 134217728) = 5592405 / 8388608"
    and "fround (100663291 / 134217728) = 12582911 / 16777216"
    and "fround (111848099 / 134217728) = 3495253 / 4194304"
    and "fround (123032907 / 134217728) = 15379113 / 16777216"
    and "fround (134217715 / 134217728) = 8388607 / 8388608"
proof -
  show "fround (1 / 12) = 11184811 / 134217728"
    by (subst fround_eqI [where e = 122]) (simp_all add: fscale_def rne_def)
  show "fround (11184811 / 134217728) = 11184811 / 134217728"
    by (subst fround_eqI [where e = 122]) (simp_all add: fscale_def rne_def)
  show "fround (11184811 / 67108864) = 11184811 / 67108864"
    by (subst fround_eqI [where e = 123]) (simp_all add: fscale_def rne_def)
  show "fround (33554433 / 134217728) = 1 / 4"
    by (subst fround_eqI [where e = 124]) (simp_all add: fscale_def rne_def)
  show "fround (44739243 / 134217728) = 11184811 / 33554432"
    by (subst fround_eqI [where e = 124]) (simp_all add: fscale_def rne_def)
  show "fround (55924055 / 134217728) = 6990507 / 16777216"
    by (subst fround_eqI [where e = 124]) (simp_all add: fscale_def rne_def)
  show "fround (67108867 / 134217728) = 1 / 2"
    by (subst fround_eqI [where e = 125]) (simp_all add: fscale_def rne_def)
  show "fround (78293675 / 134217728) = 9786709 / 16777216"
    by (subst fround_eqI [where e = 125]) (simp_all add: fscale_def rne_def)
  show "fround (89478483 / 134217728) = 5592405 / 8388608"
    by (subst fround_eqI [where e = 125]) (simp_all add: fscale_def rne_def)
  show "fround (100663291 / 134217728) = 12582911 / 16777216"
    by (subst fround_eqI [where e = 125]) (simp_all add: fscale_def rne_def)
  show "fround (111848099 / 134217728) = 3495253 / 4194304"
    by (subst fround_eqI [where e = 125]) (simp_all add: fscale_def rne_def)
  show "fround (123032907 / 134217728) = 15379113 / 16777216"
    by (subst fround_eqI [where e = 125]) (simp_all add: fscale_def rne_def)
  show "fround (134217715 / 134217728) = 8388607 / 8388608"
    by (subst fround_eqI [where e = 125]) (simp_all add: fscale_def rne_def)
qed

lemma smoother_nexts_step:
  "qx_smoother_next s = (y, s1) \<Longrightarrow> smoother_nexts n s1 = (ys, s2) \<Longrightarrow>
     smoother_nexts (Suc n) s = (y # ys, s2)"
  by simp

lemma smoother_twelve_frames:
  "smoother_scenario 0 12 1 12 = Some [11184811 / 134217728, 11184811 / 67108864, 1 / 4, 11184811 / 33554432, 6990507 / 16777216, 1 / 2, 9786709 / 16777216, 5592405 / 8388608, 12582911 / 16777216, 3495253 / 4194304, 15379113 / 16777216, 8388607 / 8388608]"
proof -
  have t: "qx_smoother_set_target (qx_smoother_init 0 12) 1 = Some \<lparr>current = 0, target = 1, step_s = 11184811 / 134217728, frames = 12\<rparr>"
    by (simp add: qx_smoother_init_def qx_smoother_set_target_def fdiv_def fsub_def
        float_of_nat_def fround_numeral fround_one fround_twelfths)
  have n1: "qx_smoother_next \<lparr>current = 0, target = 1, step_s = 11184811 / 134217728, frames = 12\<rparr> =
      (11184811 / 134217728, \<lparr>current = 11184811 / 134217728, target = 1, step_s = 11184811 / 134217728, frames = 12\<rparr>)"
    by (simp add: qx_smoother_next_def fadd_def fround_twelfths)
  have n2: "qx_smoother_next \<lparr>current = 11184811 / 134217728, target = 1, step_s = 11184811 / 134217728, frames = 12\<rparr> =
      (11184811 / 67108864, \<lparr>current = 11184811 / 67108864, target = 1, step_s = 11184811 / 134217728, frames = 12\<rparr>)"
    by (simp add: qx_smoother_next_def fadd_def fround_twelfths)
  have n3: "qx_smoother_next \<lparr>current = 11184811 / 67108864, target = 1, step_s = 11184811 / 134217728, frames = 12\<rparr> =
      (1 / 4, \<lparr>current = 1 / 4, target = 1, step_s = 11184811 / 134217728, frames = 12\<rparr>)"
    by (simp add: qx_smoother_next_def fadd_def fround_twelfths)
  have n4: "qx_smoother_next \<lparr>current = 1 / 4, target = 1, step_s = 11184811 / 134217728, frames = 12\<rparr> =
      (11184811 / 33554432, \<lparr>current = 11184811 / 33554432, target = 1, step_s = 11184811 / 134217728, frames = 12\<rparr>)"
    by (simp add: qx_smoother_next_def fadd_def fround_twelfths)
  have n5: "qx_smoother_next \<lparr>current = 11184811 / 33554432, target = 1, step_s = 11184811 / 134217728, frames = 12\<rparr> =
      (6990507 / 16777216, \<lparr>current = 6990507 / 16777216, target = 1, step_s = 11184811 / 134217728, frames = 12\<rparr>)"
    by (simp add: qx_smoother_next_def fadd_def fround_twelfths)
  have n6: "qx_smoother_next \<lparr>current = 6990507 / 16777216, target = 1, step_s = 11184811 / 134217728, frames = 12\<rparr> =
      (1 / 2, \<lparr>current = 1 / 2, target = 1, step_s = 11184811 / 134217728, frames = 12\<rparr>)"
    by (simp add: qx_smoother_next_def fadd_def fround_twelfths)
  have n7: "qx_smoother_next \<lparr>current = 1 / 2, target = 1, step_s = 11184811 / 134217728, frames = 12\<rparr> =
      (9786709 / 16777216, \<lparr>current = 9786709 / 16777216, target = 1, step_s = 11184811 / 134217728, frames = 12\<rparr>)"
    by (simp add: qx_smoother_next_def fadd_def fround_twelfths)
  have n8: "qx_smoother_next \<lparr>current = 9786709 / 16777216, target = 1, step_s = 11184811 / 134217728, frames = 12\<rparr> =
      (5592405 / 8388608, \<lparr>current = 5592405 / 8388608, target = 1, step_s = 11184811 / 134217728, frames = 12\<rparr>)"
    by (simp add: qx_smoother_next_def fadd_def fround_twelfths)
  have n9: "qx_smoother_next \<lparr>current = 5592405 / 8388608, target = 1, step_s = 11184811 / 134217728, frames = 12\<rparr> =
      (12582911 / 16777216, \<lparr>current = 12582911 / 16777216, target = 1, step_s = 11184811 / 134217728, frames = 12\<rparr>)"
    by (simp add: qx_smoother_next_def fadd_def fround_twelfths)
  have n10: "qx_smoother_next \<lparr>current = 12582911 / 16777216, target = 1, step_s = 11184811 / 134217728, frames = 12\<rparr> =
      (3495253 / 4194304, \<lparr>current = 3495253 / 4194304, target = 1, step_s = 11184811 / 134217728, frames = 12\<rparr>)"
    by (simp add: qx_smoother_next_def fadd_def fround_twelfths)
  have n11: "qx_smoother_next \<lparr>current = 3495253 / 4194304, target = 1, step_s = 11184811 / 134217728, frames = 12\<rparr> =
      (15379113 / 16777216, \<lparr>current = 15379113 / 16777216, target = 1, step_s = 11184811 / 134217728, frames = 12\<rparr>)"
    by (simp add: qx_smoother_next_def fadd_def fround_twelfths)
  have n12: "qx_smoother_next \<lparr>current = 15379113 / 16777216, target = 1, step_s = 11184811 / 134217728, frames = 12\<rparr> =
      (8388607 / 8388608, \<lparr>current = 8388607 / 8388608, target = 1, step_s = 11184811 / 134217728, frames = 12\<rparr>)"
    by (simp add: qx_smoother_next_def fadd_def fround_twelfths)
  have e: "(12::nat) = Suc (Suc (Suc (Suc (Suc (Suc (Suc (Suc (Suc (Suc (Suc (Suc 0)))))))))))" by simp
  have "smoother_nexts (Suc (Suc (Suc (Suc (Suc (Suc (Suc (Suc (Suc (Suc (Suc (Suc 0)))))))))))) \<lparr>current = 0, target = 1, step_s = 11184811 / 134217728, frames = 12\<rparr> =
      ([11184811 / 134217728, 11184811 / 67108864, 1 / 4, 11184811 / 33554432, 6990507 / 16777216, 1 / 2, 9786709 / 16777216, 5592405 / 8388608, 12582911 / 16777216, 3495253 / 4194304, 15379113 / 16777216, 8388607 / 8388608], \<lparr>current = 8388607 / 8388608, target = 1, step_s = 11184811 / 134217728, frames = 12\<rparr>)"
    by (intro smoother_nexts_step [OF n1] smoother_nexts_step [OF n2] smoother_nexts_step [OF n3]
        smoother_nexts_step [OF n4] smoother_nexts_step [OF n5] smoother_nexts_step [OF n6]
        smoother_nexts_step [OF n7] smoother_nexts_step [OF n8] smoother_nexts_step [OF n9]
        smoother_nexts_step [OF n10] smoother_nexts_step [OF n11] smoother_nexts_step [OF n12]
        smoother_nexts.simps(1))
  then have "smoother_nexts 12 \<lparr>current = 0, target = 1, step_s = 11184811 / 134217728, frames = 12\<rparr> =
      ([11184811 / 134217728, 11184811 / 67108864, 1 / 4, 11184811 / 33554432, 6990507 / 16777216, 1 / 2, 9786709 / 16777216, 5592405 / 8388608, 12582911 / 16777216, 3495253 / 4194304, 15379113 / 16777216, 8388607 / 8388608], \<lparr>current = 8388607 / 8388608, target = 1, step_s = 11184811 / 134217728, frames = 12\<rparr>)"
    by (simp only: e)
  then show ?thesis by (simp add: smoother_scenario_def t)
qed

lemma smoother_stuck:
  assumes "current s = 16777216" "target s = 16777218" "step_s s = 1"
  shows "smoother_nexts n s = (replicate n 16777216, s)"
proof (induction n)
  case 0
  then show ?case by simp
next
  case (Suc n)
  have "qx_smoother_next s = (16777216, s)"
    using assms by (simp add: qx_smoother_next_def fadd_def fround_16777217)
  then show ?case using Suc by simp
qed

lemma smoother_scenario_stuck:
  "smoother_scenario 16777216 2 16777218 n = Some (replicate n 16777216)"
proof -
  have "qx_smoother_set_target (qx_smoother_init 16777216 2) 16777218 =
      Some \<lparr>current = 16777216, target = 16777218, step_s = 1, frames = 2\<rparr>"
    by (simp add: qx_smoother_init_def qx_smoother_set_target_def fdiv_def fsub_def
        float_of_nat_def fround_numeral fround_one)
  then show ?thesis by (simp add: smoother_scenario_def smoother_stuck)
qed

text \<open>
  With rounding the target need not be reached within \<open>frames\<close> calls. From 0 towards 1
  in twelve frames the twelfth call returns \<open>1 - 2^-23\<close> (only the thirteenth reaches 1).
  From \<open>2^24\<close> towards \<open>2^24 + 2\<close> in two frames the step is 1, and \<open>2^24 + 1\<close> rounds
  back to \<open>2^24\<close>, so \<open>current\<close> never moves.
\<close>

theorem smoother_stalls_counterexample:
  "smoother_scenario 0 12 1 12 =
     Some [11184811 / 134217728, 11184811 / 67108864, 1 / 4, 11184811 / 33554432,
       6990507 / 16777216, 1 / 2, 9786709 / 16777216, 5592405 / 8388608,
       12582911 / 16777216, 3495253 / 4194304, 15379113 / 16777216, 8388607 / 8388608] \<and>
   smoother_scenario 16777216 2 16777218 2 = Some [16777216, 16777216]"
  using smoother_scenario_stuck [of 2] smoother_twelve_frames by (simp add: numeral_2_eq_2)

section \<open>Wrapping into a period\<close>

lemmas wrapf_up_induct = wrapf_up.raw_induct [where xa = "(x, mx)" for x mx, unfolded prod.case, rotated, consumes 1]
lemmas wrapf_down_induct = wrapf_down.raw_induct [where xa = "(x, mx)" for x mx, unfolded prod.case, rotated, consumes 1]

lemma wrapf_up_nonneg: "wrapf_up x mx = Some y \<Longrightarrow> 0 \<le> y"
proof (induction rule: wrapf_up_induct)
  case (1 f x mx y)
  then show ?case by (auto split: if_splits)
qed

lemma wrapf_down_range:
  "wrapf_down x mx = Some y \<Longrightarrow> 0 < mx \<Longrightarrow> 0 \<le> x \<Longrightarrow> 0 \<le> y \<and> y < mx"
proof (induction rule: wrapf_down_induct)
  case (1 f x mx y)
  show ?case
  proof (cases "mx \<le> x")
    case True
    then have "0 \<le> fsub x mx" unfolding fsub_def by (intro fround_nonneg) simp
    moreover have "f (fsub x mx) mx = Some y" using "1.hyps" True by simp
    ultimately show ?thesis using "1.IH" "1.prems" by blast
  next
    case False
    then show ?thesis using "1.hyps" "1.prems" by simp
  qed
qed

lemma wrapf_down_never:
  "wrapf_down x mx = Some y \<Longrightarrow> mx \<le> 0 \<Longrightarrow> is_float mx \<Longrightarrow> mx \<le> x \<Longrightarrow> False"
proof (induction rule: wrapf_down_induct)
  case (1 f x mx y)
  have "mx \<le> fsub x mx"
    unfolding fsub_def using "1.prems" by (intro fround_ge_float) simp_all
  moreover have "f (fsub x mx) mx = Some y" using "1.hyps" "1.prems" by simp
  ultimately show ?case using "1.IH" "1.prems" by blast
qed

lemma qx_wrapf_nonpositive: 
  assumes "mx \<le> 0" and "is_float mx"
  shows "qx_wrapf x mx = None"
proof (cases "wrapf_up x mx")
  case None
  then show ?thesis by (simp add: qx_wrapf_def)
next
  case (Some y)
  then have "mx \<le> y" using wrapf_up_nonneg [OF Some] assms by simp
  then have "wrapf_down y mx = None"
    using wrapf_down_never [of y mx] assms by (cases "wrapf_down y mx") auto
  then show ?thesis using Some by (simp add: qx_wrapf_def)
qed

lemma wrapf_down_exact:
  assumes r: "0 \<le> r" "r < mx"
  shows "(\<forall>j\<in>{0..<n}. is_float (r + real j * mx)) \<Longrightarrow> wrapf_down (r + real n * mx) mx = Some r"
proof (induction n)
  case 0
  then show ?case using r by (simp add: wrapf_down.simps)
next
  case (Suc n)
  have m: "0 < mx" using r by simp
  have nn: "0 \<le> real n * mx" using m by simp
  have "real (Suc n) * mx = real n * mx + mx" by (simp add: algebra_simps)
  then have ge: "mx \<le> r + real (Suc n) * mx" using nn r by linarith
  have "n \<in> {0..<Suc n}" by simp
  with Suc.prems have "is_float (r + real n * mx)" by (rule bspec)
  then have "fsub (r + real (Suc n) * mx) mx = r + real n * mx"
    by (simp add: fsub_def is_float_def algebra_simps)
  moreover have "wrapf_down (r + real n * mx) mx = Some r"
    using Suc.prems by (intro Suc.IH) simp
  ultimately show ?case using ge by (subst wrapf_down.simps) simp
qed

lemma wrapf_up_exact:
  assumes r: "0 \<le> r" "r < mx"
  shows "(\<forall>j\<in>{0..<n}. is_float (r - real j * mx)) \<Longrightarrow> wrapf_up (r - real n * mx) mx = Some r"
proof (induction n)
  case 0
  then show ?case using r by (simp add: wrapf_up.simps)
next
  case (Suc n)
  have m: "0 < mx" using r by simp
  have nn: "0 \<le> real n * mx" using m by simp
  have "real (Suc n) * mx = real n * mx + mx" by (simp add: algebra_simps)
  then have lt: "r - real (Suc n) * mx < 0" using nn r by linarith
  have "n \<in> {0..<Suc n}" by simp
  with Suc.prems have "is_float (r - real n * mx)" by (rule bspec)
  then have "fadd (r - real (Suc n) * mx) mx = r - real n * mx"
    by (simp add: fadd_def is_float_def algebra_simps)
  moreover have "wrapf_up (r - real n * mx) mx = Some r"
    using Suc.prems by (intro Suc.IH) simp
  ultimately show ?case using lt by (subst wrapf_up.simps) simp
qed

text \<open>
  Progress of the two statements. For binary32 numbers \<open>x\<close> and \<open>max > 0\<close> with
  \<open>\<bar>x\<bar> < 2^24 * max\<close>, the rounded difference \<open>x - max\<close> is below \<open>x\<close> when
  \<open>max \<le> x\<close>, and the rounded sum \<open>x + max\<close> is above \<open>x\<close> when \<open>x < 0\<close>: the
  rounding moves a value by at most half the spacing of the binary32 numbers around it, and
  \<open>max\<close> is more than that. The binary32 numbers being the multiples of \<open>2^-149\<close>, each
  statement ends.
\<close>

lemma wrap_down_progress:
  assumes x: "is_float x" and m: "is_float mx" and pos: "0 < mx" and ge: "mx \<le> x"
    and bound: "x < 2 ^ 24 * mx"
  shows "fround (x - mx) < x"
proof -
  define X where "X = x * fscale"
  define M where "M = mx * fscale"
  define Y where "Y = (x - mx) * fscale"
  have Y: "Y = X - M" by (simp add: X_def M_def Y_def algebra_simps)
  obtain k :: int where k: "M = of_int k" using is_float_scaled [OF m] M_def by auto
  have "0 < M" using pos fscale_pos by (simp add: M_def)
  then have "0 < k" using k by simp
  then have "1 \<le> k" by simp
  then have M1: "1 \<le> M" using k by simp
  have Y0: "0 \<le> Y" using ge fscale_pos by (simp add: Y_def)
  have YX: "Y \<le> X" using Y \<open>0 < M\<close> by simp
  have X0: "0 \<le> X" using Y0 YX by simp
  have e: "uexp Y \<le> uexp X" using Y0 YX by (intro uexp_mono) simp
  have XM: "X < 2 ^ 24 * M" using bound fscale_pos by (simp add: X_def M_def)
  have half: "2 ^ uexp X / 2 < M"
  proof (cases "uexp X = 0")
    case True
    then show ?thesis using M1 by simp
  next
    case False
    then have "2 ^ (uexp X + 23) \<le> \<bar>X\<bar>" by (intro uexp_lo) simp
    then have "2 ^ (uexp X + 23) < 2 ^ 24 * M" using XM X0 by simp
    then have "2 ^ uexp X * (2 ^ 23 :: real) < 2 * M * 2 ^ 23" by (simp add: power_add)
    then have "2 ^ uexp X < 2 * M" by (simp only: mult_less_cancel_right_pos zero_less_power zero_less_numeral) 
    then show ?thesis by simp
  qed
  have "(2::real) ^ uexp Y \<le> 2 ^ uexp X" using e by simp
  then have "rgrid Y < Y + M" using rgrid_upper [of Y] half by linarith
  then have "rgrid Y < X" using Y by simp
  then have "rgrid Y / fscale < X / fscale" using fscale_pos by (simp add: divide_strict_right_mono)
  then show ?thesis using fscale_pos by (simp add: fround_def Y_def X_def)
qed

lemma float_measure_less:
  assumes "is_float a" "is_float b" "0 \<le> a" "a < b"
  shows "nat \<lfloor>a * fscale\<rfloor> < nat \<lfloor>b * fscale\<rfloor>"
proof -
  obtain i :: int where i: "a * fscale = of_int i" using is_float_scaled [OF assms(1)] by auto
  obtain j :: int where j: "b * fscale = of_int j" using is_float_scaled [OF assms(2)] by auto
  have "a * fscale < b * fscale" using assms fscale_pos by simp
  then have "i < j" using i j by simp
  moreover have "0 \<le> a * fscale" using assms fscale_pos by simp
  then have "0 \<le> i" using i by simp
  ultimately show ?thesis using i j by simp
qed

lemma wrapf_down_total:
  assumes m: "is_float mx" and pos: "0 < mx"
  shows "is_float x \<Longrightarrow> 0 \<le> x \<Longrightarrow> x < 2 ^ 24 * mx \<Longrightarrow>
    \<exists>y. wrapf_down x mx = Some y \<and> 0 \<le> y \<and> y < mx"
proof (induction "nat \<lfloor>x * fscale\<rfloor>" arbitrary: x rule: less_induct)
  case less
  show ?case
  proof (cases "x < mx")
    case True
    then have "wrapf_down x mx = Some x" by (subst wrapf_down.simps) simp
    then show ?thesis using True less.prems by simp
  next
    case False
    then have ge: "mx \<le> x" by simp
    let ?x = "fsub x mx"
    have lt: "?x < x" unfolding fsub_def using less.prems(1) m pos ge less.prems(3) by (rule wrap_down_progress)
    have fl: "is_float ?x" by (simp add: fsub_def is_float_fround)
    have nn: "0 \<le> ?x" using ge by (simp add: fsub_def fround_nonneg)
    have "nat \<lfloor>?x * fscale\<rfloor> < nat \<lfloor>x * fscale\<rfloor>"
      using fl less.prems(1) nn lt by (rule float_measure_less)
    moreover have "?x < 2 ^ 24 * mx" using lt less.prems(3) by simp
    ultimately have "\<exists>y. wrapf_down ?x mx = Some y \<and> 0 \<le> y \<and> y < mx"
      using fl nn by (intro less.hyps)
    moreover have "wrapf_down x mx = wrapf_down ?x mx" using ge by (subst wrapf_down.simps) simp
    ultimately show ?thesis by simp
  qed
qed

lemma wrap_up_progress:
  assumes x: "is_float x" and m: "is_float mx" and pos: "0 < mx" and neg: "x < 0"
    and bound: "- x < 2 ^ 24 * mx"
  shows "x < fround (x + mx) \<and> fround (x + mx) \<le> mx"
proof
  show "fround (x + mx) \<le> mx" using m neg by (intro fround_le_float) simp_all
  show "x < fround (x + mx)"
  proof (cases "mx \<le> - x")
    case True
    have "fround (- x - mx) < - x"
      using is_float_minus [OF x] m pos True bound by (rule wrap_down_progress)
    moreover have "fround (- x - mx) = - fround (x + mx)"
      using fround_minus [of "x + mx"] by simp
    ultimately show ?thesis by simp
  next
    case False
    then have "0 \<le> fround (x + mx)" by (intro fround_nonneg) simp
    then show ?thesis using neg by simp
  qed
qed

lemma wrapf_up_total:
  assumes m: "is_float mx" and pos: "0 < mx"
  shows "is_float x \<Longrightarrow> - x < 2 ^ 24 * mx \<Longrightarrow> x < 2 ^ 24 * mx \<Longrightarrow>
    \<exists>y. wrapf_up x mx = Some y \<and> is_float y \<and> 0 \<le> y \<and> y < 2 ^ 24 * mx"
proof (induction "nat \<lfloor>- x * fscale\<rfloor>" arbitrary: x rule: less_induct)
  case less
  show ?case
  proof (cases "x < 0")
    case False
    then have "wrapf_up x mx = Some x" by (subst wrapf_up.simps) simp
    then show ?thesis using False less.prems by simp
  next
    case True
    let ?x = "fadd x mx"
    have pr: "x < ?x \<and> ?x \<le> mx"
      unfolding fadd_def using less.prems(1) m pos True less.prems(2) by (rule wrap_up_progress)
    have fl: "is_float ?x" by (simp add: fadd_def is_float_fround)
    have up: "?x < 2 ^ 24 * mx" using pr pos by simp
    have st: "wrapf_up x mx = wrapf_up ?x mx" using True by (subst wrapf_up.simps) simp
    show ?thesis
    proof (cases "?x < 0")
      case False
      then have "wrapf_up ?x mx = Some ?x" by (subst wrapf_up.simps) simp
      then show ?thesis using st fl False up by simp
    next
      case neg: True
      have "nat \<lfloor>- ?x * fscale\<rfloor> < nat \<lfloor>- x * fscale\<rfloor>"
        using is_float_minus [OF fl] is_float_minus [OF less.prems(1)] neg pr
        by (intro float_measure_less) simp_all
      moreover have "- ?x < 2 ^ 24 * mx" using pr less.prems(2) by simp
      ultimately have "\<exists>y. wrapf_up ?x mx = Some y \<and> is_float y \<and> 0 \<le> y \<and> y < 2 ^ 24 * mx"
        using fl up by (intro less.hyps)
      then show ?thesis using st by simp
    qed
  qed
qed

lemma qx_wrapf_total:
  assumes "is_float x" "is_float mx" "0 < mx" "\<bar>x\<bar> < 2 ^ 24 * mx"
  shows "\<exists>y. qx_wrapf x mx = Some y \<and> 0 \<le> y \<and> y < mx"
proof -
  have "- x < 2 ^ 24 * mx" "x < 2 ^ 24 * mx" using assms(4) by simp_all
  then obtain z where z: "wrapf_up x mx = Some z" "is_float z" "0 \<le> z" "z < 2 ^ 24 * mx"
    using wrapf_up_total [OF assms(2,3,1)] by blast
  obtain y where "wrapf_down z mx = Some y" "0 \<le> y" "y < mx"
    using wrapf_down_total [OF assms(2,3) z(2,3,4)] by blast
  then show ?thesis using z(1) by (simp add: qx_wrapf_def)
qed


text \<open>
  The call \<open>qx_wrapf(0.3f, 0.1f)\<close>: the first subtraction rounds, and the result is
  \<open>2^-26\<close>.
\<close>

lemma fround_wrap_step: "fround (26843547 / 134217728) = 6710887 / 33554432"
  by (subst fround_eqI [where e = 123]) (simp_all add: fscale_def rne_def)

lemma qx_wrapf_three_tenths:
  "qx_wrapf (5033165 / 16777216) (13421773 / 134217728) = Some (1 / 67108864)"
proof -
  have f: "fround (13421775 / 134217728) = 13421775 / 134217728"
    "fround (1 / 67108864) = 1 / 67108864"
    using fround_dyadic [of 13421775 27] fround_dyadic [of 1 26] by simp_all
  have "wrapf_down (1 / 67108864) (13421773 / 134217728) = Some (1 / 67108864)"
    by (subst wrapf_down.simps) simp
  then have "wrapf_down (13421775 / 134217728) (13421773 / 134217728) = Some (1 / 67108864)"
    by (subst wrapf_down.simps) (simp add: fsub_def f)
  then have "wrapf_down (6710887 / 33554432) (13421773 / 134217728) = Some (1 / 67108864)"
    by (subst wrapf_down.simps) (simp add: fsub_def f)
  then have "wrapf_down (5033165 / 16777216) (13421773 / 134217728) = Some (1 / 67108864)"
    by (subst wrapf_down.simps) (simp add: fsub_def fround_wrap_step)
  moreover have "wrapf_up (5033165 / 16777216) (13421773 / 134217728) = Some (5033165 / 16777216)"
    by (subst wrapf_up.simps) simp
  ultimately show ?thesis by (simp add: qx_wrapf_def)
qed

text \<open>
  Claim C7, as amended. For finite \<open>x\<close> and finite \<open>max > 0\<close>: if \<open>x\<close> and \<open>max\<close> are
  binary32 numbers with \<open>\<bar>x\<bar> < 2^24 * max\<close>, then \<open>qx_wrapf x max\<close> returns, and its
  result \<open>y\<close> satisfies \<open>0 \<le> y < max\<close>. Whenever \<open>qx_wrapf x max\<close> returns \<open>y\<close>,
  \<open>0 \<le> y < max\<close>. The call returns \<open>r\<close> for \<open>x = r + n * max\<close> and for
  \<open>x = r - n * max\<close>, where \<open>0 \<le> r < max\<close> and \<open>n\<close> is a natural number, when the
  values in between (\<open>r + j * max\<close>, respectively \<open>r - j * max\<close>, for \<open>j < n\<close>) are
  binary32 numbers, so that every addition and subtraction of the two statements is exact; the
  result then differs from \<open>x\<close> by \<open>n\<close> times \<open>max\<close>. In particular
  wrap(-0.5, 1.0) = 0.5 and wrap(1.5, 1.0) = 0.5.
\<close>

theorem qx_wrapf_positive_max:
  assumes "0 < mx"
  shows "(is_float x \<and> is_float mx \<and> \<bar>x\<bar> < 2 ^ 24 * mx \<longrightarrow>
       (\<exists>z. qx_wrapf x mx = Some z \<and> 0 \<le> z \<and> z < mx)) \<and>
    (qx_wrapf x mx = Some y \<longrightarrow> 0 \<le> y \<and> y < mx) \<and>
    (0 \<le> r \<and> r < mx \<and> (\<forall>j\<in>{0..<n}. is_float (r + real j * mx)) \<longrightarrow>
       qx_wrapf (r + real n * mx) mx = Some r) \<and>
    (0 \<le> r \<and> r < mx \<and> (\<forall>j\<in>{0..<n}. is_float (r - real j * mx)) \<longrightarrow>
       qx_wrapf (r - real n * mx) mx = Some r) \<and>
    qx_wrapf (- 1 / 2) 1 = Some (1 / 2) \<and> qx_wrapf (3 / 2) 1 = Some (1 / 2)"
proof -
  have t: "\<exists>z. qx_wrapf x mx = Some z \<and> 0 \<le> z \<and> z < mx"
    if "is_float x" "is_float mx" "\<bar>x\<bar> < 2 ^ 24 * mx"
    using that(1,2) assms that(3) by (rule qx_wrapf_total)
  have a: "0 \<le> y \<and> y < mx" if "qx_wrapf x mx = Some y"
  proof -
    from that obtain z where z: "wrapf_up x mx = Some z" "wrapf_down z mx = Some y"
      by (auto simp: qx_wrapf_def split: Option.bind_splits)
    show ?thesis using wrapf_down_range [OF z(2) assms wrapf_up_nonneg [OF z(1)]] .
  qed
  have b: "qx_wrapf (r + real n * mx) mx = Some r"
    if "0 \<le> r" "r < mx" "\<forall>j\<in>{0..<n}. is_float (r + real j * mx)" for r n mx
  proof -
    have "0 \<le> real n * mx" using that by simp
    then have "0 \<le> r + real n * mx" using that by simp
    then have "wrapf_up (r + real n * mx) mx = Some (r + real n * mx)"
      by (subst wrapf_up.simps) simp
    then show ?thesis using wrapf_down_exact [OF that] by (simp add: qx_wrapf_def)
  qed
  have c: "qx_wrapf (r - real n * mx) mx = Some r"
    if "0 \<le> r" "r < mx" "\<forall>j\<in>{0..<n}. is_float (r - real j * mx)" for r n mx
  proof -
    have "wrapf_down r mx = Some r" using that by (subst wrapf_down.simps) simp
    then show ?thesis using wrapf_up_exact [OF that] by (simp add: qx_wrapf_def)
  qed
  have h: "is_float (1 / 2)" using fround_dyadic [of 1 1] by (simp add: is_float_def)
  have "qx_wrapf (1 / 2 - real 1 * 1) 1 = Some (1 / 2)" using h by (intro c) simp_all
  then have d: "qx_wrapf (- 1 / 2) 1 = Some (1 / 2)" by simp
  have "qx_wrapf (1 / 2 + real 1 * 1) 1 = Some (1 / 2)" using h by (intro b) simp_all
  then have e: "qx_wrapf (3 / 2) 1 = Some (1 / 2)" by simp
  show ?thesis using t a b [of r mx n] c [of r mx n] d e by blast
qed

theorem qx_wrapf_positive_max_witness:
  "(0::real) < 1 \<and> qx_wrapf (5 / 2) 1 = Some (1 / 2) \<and> qx_wrapf (- 3 / 2) 1 = Some (1 / 2) \<and>
   (0::real) \<le> 1 / 2 \<and> (1::real) / 2 < 1 \<and>
   is_float (5033165 / 16777216) \<and> is_float (13421773 / 134217728) \<and>
   \<bar>5033165 / 16777216\<bar> < (2 ^ 24 * (13421773 / 134217728) :: real) \<and>
   (\<exists>z. qx_wrapf (5033165 / 16777216) (13421773 / 134217728) = Some z \<and> 0 \<le> z \<and>
      z < 13421773 / 134217728)"
proof -
  have h: "is_float (real_of_int k / 2)" if "\<bar>k\<bar> < 2 ^ 24" for k
    using fround_dyadic [OF that, of 1] by (simp add: is_float_def)
  have up: "\<forall>j\<in>{0..<2}. is_float (1 / 2 + real j * 1)"
  proof
    fix j :: nat assume "j \<in> {0..<2}"
    then have "\<bar>1 + 2 * int j\<bar> < 2 ^ 24" by simp
    then have "is_float (real_of_int (1 + 2 * int j) / 2)" by (rule h)
    then show "is_float (1 / 2 + real j * 1)" by (simp add: add_divide_distrib)
  qed
  have dn: "\<forall>j\<in>{0..<2}. is_float (1 / 2 - real j * 1)"
  proof
    fix j :: nat assume "j \<in> {0..<2}"
    then have "\<bar>1 - 2 * int j\<bar> < 2 ^ 24" by simp
    then have "is_float (real_of_int (1 - 2 * int j) / 2)" by (rule h)
    then show "is_float (1 / 2 - real j * 1)" by (simp add: diff_divide_distrib)
  qed
  have p: "(0::real) < 1" by simp
  have q: "(0::real) < 13421773 / 134217728" by simp
  have fx: "is_float (5033165 / 16777216)"
    using fround_dyadic [of 5033165 24] by (simp add: is_float_def)
  have fm: "is_float (13421773 / 134217728)"
    using fround_dyadic [of 13421773 27] by (simp add: is_float_def)
  have bd: "\<bar>5033165 / 16777216\<bar> < (2 ^ 24 * (13421773 / 134217728) :: real)" by simp
  have a: "qx_wrapf (1 / 2 + real 2 * 1) 1 = Some (1 / 2)"
    using qx_wrapf_positive_max [OF p, of _ _ "1 / 2" 2] up by simp
  have b: "qx_wrapf (1 / 2 - real 2 * 1) 1 = Some (1 / 2)"
    using qx_wrapf_positive_max [OF p, of _ _ "1 / 2" 2] dn by simp
  have c: "0 \<le> (1::real) / 2 \<and> (1::real) / 2 < 1"
    using qx_wrapf_positive_max [OF p, of "5 / 2" "1 / 2"] a by simp
  have d: "\<exists>z. qx_wrapf (5033165 / 16777216) (13421773 / 134217728) = Some z \<and> 0 \<le> z \<and>
      z < 13421773 / 134217728"
    using qx_wrapf_positive_max [OF q, of "5033165 / 16777216"] fx fm bd by blast
  show ?thesis using a b c d fx fm bd by simp
qed

lemma fround_wrap_values:
  shows "fround (- 33554431) = - 33554432"
    and "fround (1073741823 / 1073741824) = 1"
proof -
  have "fround 33554431 = 33554432"
    by (subst fround_eqI [where e = 150]) (simp_all add: fscale_def rne_def)
  then show "fround (- 33554431) = - 33554432" by (simp add: fround_minus)
  show "fround (1073741823 / 1073741824) = 1"
    by (subst fround_eqI [where e = 125]) (simp_all add: fscale_def rne_def)
qed

lemma wrapf_up_stuck:
  "wrapf_up x mx = Some y \<Longrightarrow> x = - 33554432 \<Longrightarrow> mx = 1 \<Longrightarrow> False"
proof (induction rule: wrapf_up_induct)
  case (1 f x mx y)
  have "fadd x mx = - 33554432" using "1.prems" by (simp add: fadd_def fround_wrap_values)
  moreover have "f (fadd x mx) mx = Some y" using "1.hyps" "1.prems" by simp
  ultimately show ?case using "1.IH" "1.prems" by simp
qed

lemma qx_wrapf_large: "qx_wrapf (- 33554432) 1 = None"
proof -
  have "wrapf_up (- 33554432) 1 = None"
    using wrapf_up_stuck [of "- 33554432" 1] by (cases "wrapf_up (- 33554432) 1") auto
  then show ?thesis by (simp add: qx_wrapf_def)
qed

lemma qx_wrapf_small: "qx_wrapf (- (1 / 1073741824)) 1 = Some 0"
proof -
  have a: "wrapf_up 1 1 = Some 1" by (subst wrapf_up.simps) simp
  have "wrapf_up (- (1 / 1073741824)) 1 = Some 1"
    by (subst wrapf_up.simps) (simp add: fadd_def fround_wrap_values a)
  moreover have "wrapf_down 0 1 = Some 0" by (subst wrapf_down.simps) simp
  then have "wrapf_down 1 1 = Some 0"
    by (subst wrapf_down.simps) (simp add: fsub_def fround_zero)
  ultimately show ?thesis by (simp add: qx_wrapf_def)
qed

text \<open>
  Three inputs the claim as first stated gets wrong. For \<open>max = 0\<close> the second statement
  subtracts nothing and never ends. For \<open>x = -2^25\<close> and \<open>max = 1\<close> the sum \<open>x + 1\<close>
  rounds back to \<open>x\<close>, and the first statement never ends. For \<open>x = -2^-30\<close> and
  \<open>max = 1\<close> the sum rounds to 1, which the second statement takes to 0: the result
  differs from \<open>x\<close> by \<open>2^-30\<close>, not by a multiple of \<open>max\<close>.
\<close>

theorem qx_wrapf_zero_max_counterexample:
  "qx_wrapf 0 0 = None \<and> qx_wrapf (- 33554432) 1 = None \<and>
   qx_wrapf (- (1 / 1073741824)) 1 = Some 0"
  using is_float_zero qx_wrapf_nonpositive [of 0 0] qx_wrapf_large qx_wrapf_small by simp

section \<open>The fader ramp\<close>

lemma fade_all_snoc: "fade_all s (vs @ [v]) = snd (qx_fader_fade (fade_all s vs) v)"
  by (induction vs arbitrary: s) simp_all

lemma fade_all_append: "fade_all s (vs @ ws) = fade_all (fade_all s vs) ws"
  by (induction vs arbitrary: s) simp_all

lemma fade_all_fields: "step (fade_all s vs) = step s \<and> enabled (fade_all s vs) = enabled s"
  by (induction vs arbitrary: s) (simp_all add: qx_fader_fade_fields)

text \<open>
  With a finite step \<open>d\<close> in the unit interval and a fade value in the unit interval, the
  sum of the two has a magnitude of at most 2: one call of \<open>qx_fader_fade\<close> stays within
  the finite numbers, and the number it stores is the rounded sum, clamped.
\<close>

lemma qx_fader_fade_value:
  assumes u: "xle (Fin 0) (fade s)" "xle (fade s) (Fin 1)"
    and st: "step s = Fin d" "0 \<le> d" "d \<le> 1"
  shows "xfinite (fade (snd (qx_fader_fade s v))) \<and>
    xval (fade (snd (qx_fader_fade s v))) =
      max 0 (min 1 (fround (xval (fade s) + (if enabled s then d else - d))))"
proof -
  let ?b = "if enabled s then step s else xneg (step s)"
  let ?r = "xval (fade s) + (if enabled s then d else - d)"
  have f: "xfinite (fade s)" "0 \<le> xval (fade s)" "xval (fade s) \<le> 1"
    using u xle_unit [of "fade s"] by simp_all
  have b: "xfinite ?b" "xval ?b = (if enabled s then d else - d)" by (simp_all add: st(1))
  have "\<bar>?r\<bar> \<le> 2" using f st(2,3) by (cases "enabled s") (simp_all add: abs_le_iff)
  then have "\<bar>fround ?r\<bar> \<le> 2" by (rule fround_abs_le_two)
  then have s: "\<bar>fround ?r\<bar> < 2 ^ 128" by simp
  have "xadd (fade s) ?b = xround (xsign (fade s) \<and> xsign ?b) (xval (fade s) + xval ?b)"
    using f(1) b(1) by (rule xadd_finite)
  then have w: "xfinite (xadd (fade s) ?b)" "xval (xadd (fade s) ?b) = fround ?r"
    using xround_finite [OF s] by (simp_all only: b(2))
  show ?thesis
    using qx_clamp_float_finite [OF w(1)] by (simp add: qx_fader_fade_def Let_def w(2))
qed

lemma qx_fader_fade_unit:
  assumes "xle (Fin 0) (fade s)" "xle (fade s) (Fin 1)" "step s = Fin d" "0 \<le> d" "d \<le> 1"
  shows "xle (Fin 0) (fade (snd (qx_fader_fade s v)))" "xle (fade (snd (qx_fader_fade s v))) (Fin 1)"
  using qx_fader_fade_range [OF assms(1,2), of v] assms(3) by simp_all

lemma qx_fader_fade_float:
  assumes "xle (Fin 0) (fade s)" "xle (fade s) (Fin 1)" "step s = Fin d" "0 \<le> d" "d \<le> 1"
  shows "is_float (xval (fade (snd (qx_fader_fade s v))))"
proof -
  have "is_float (max 0 (min 1 (fround x)))" for x
    by (simp add: max_def min_def is_float_zero is_float_one is_float_fround)
  then show ?thesis using qx_fader_fade_value [OF assms, of v] by simp
qed

lemma fade_all_unit:
  assumes st: "step s = Fin d" "0 \<le> d" "d \<le> 1"
  shows "xle (Fin 0) (fade s) \<Longrightarrow> xle (fade s) (Fin 1) \<Longrightarrow> is_float (xval (fade s)) \<Longrightarrow>
    xle (Fin 0) (fade (fade_all s vs)) \<and> xle (fade (fade_all s vs)) (Fin 1) \<and>
    is_float (xval (fade (fade_all s vs)))"
proof (induction vs rule: rev_induct)
  case Nil
  then show ?case by simp
next
  case (snoc v vs)
  have f: "step (fade_all s vs) = Fin d" using fade_all_fields [of s vs] st(1) by simp
  have u: "xle (Fin 0) (fade (fade_all s vs))" "xle (fade (fade_all s vs)) (Fin 1)"
    using snoc by simp_all
  show ?case
    unfolding fade_all_snoc
    using qx_fader_fade_unit [OF u f st(2,3), of v] qx_fader_fade_float [OF u f st(2,3), of v]
    by simp
qed

lemma fade_step_up:
  assumes "xle (Fin 0) (fade s)" "xle (fade s) (Fin 1)" "step s = Fin d" "0 \<le> d" "d \<le> 1"
    and "enabled s" "is_float (xval (fade s))"
  shows "xval (fade s) \<le> xval (fade (snd (qx_fader_fade s v)))"
proof -
  have f: "0 \<le> xval (fade s)" "xval (fade s) \<le> 1"
    using assms(1,2) xle_unit [of "fade s"] by simp_all
  have "xval (fade s) \<le> fround (xval (fade s) + d)"
    using assms by (intro fround_ge_float) simp_all
  then show ?thesis using f assms(6) by (simp add: qx_fader_fade_value [OF assms(1-5)])
qed

lemma fade_step_down:
  assumes "xle (Fin 0) (fade s)" "xle (fade s) (Fin 1)" "step s = Fin d" "0 \<le> d" "d \<le> 1"
    and "\<not> enabled s" "is_float (xval (fade s))"
  shows "xval (fade (snd (qx_fader_fade s v))) \<le> xval (fade s)"
proof -
  have f: "0 \<le> xval (fade s)" "xval (fade s) \<le> 1"
    using assms(1,2) xle_unit [of "fade s"] by simp_all
  have "fround (xval (fade s) + - d) \<le> xval (fade s)"
    using assms by (intro fround_le_float) simp_all
  then show ?thesis using f assms(6) by (simp add: qx_fader_fade_value [OF assms(1-5)])
qed

lemma fade_stay_one:
  assumes "step s = Fin d" "0 \<le> d" "d \<le> 1" "enabled s" "fade s = Fin 1"
  shows "fade (snd (qx_fader_fade s v)) = Fin 1"
proof -
  have u: "xle (Fin 0) (fade s)" "xle (fade s) (Fin 1)" using assms(5) by (simp_all add: xle_def)
  have "1 \<le> fround (1 + d)" using assms by (intro fround_ge_one) simp
  then have "xfinite (fade (snd (qx_fader_fade s v))) \<and> xval (fade (snd (qx_fader_fade s v))) = 1"
    using qx_fader_fade_value [OF u assms(1-3), of v] assms(4,5) by simp
  then show ?thesis using xeq_one [of "fade (snd (qx_fader_fade s v))"]
    by (cases "fade (snd (qx_fader_fade s v))") simp_all
qed

lemma fade_stay_zero:
  assumes "step s = Fin d" "0 \<le> d" "d \<le> 1" "\<not> enabled s" "xeq (fade s) (Fin 0)"
  shows "xeq (fade (snd (qx_fader_fade s v))) (Fin 0)"
proof -
  have z: "xfinite (fade s)" "xval (fade s) = 0" using assms(5) by (simp_all add: xeq_zero)
  then have u: "xle (Fin 0) (fade s)" "xle (fade s) (Fin 1)"
    using xle_unit [of "fade s"] by simp_all
  have "fround (0 + - d) \<le> 0" using assms by (intro fround_nonpos) simp
  then show ?thesis
    using qx_fader_fade_value [OF u assms(1-3), of v] assms(4) z by (simp add: xeq_zero)
qed

lemma fade_all_stay_one:
  "step s = Fin d \<Longrightarrow> 0 \<le> d \<Longrightarrow> d \<le> 1 \<Longrightarrow> enabled s \<Longrightarrow> fade s = Fin 1 \<Longrightarrow>
     fade (fade_all s vs) = Fin 1"
  by (induction vs arbitrary: s) (simp_all add: fade_stay_one qx_fader_fade_fields)

lemma fade_all_stay_zero:
  "step s = Fin d \<Longrightarrow> 0 \<le> d \<Longrightarrow> d \<le> 1 \<Longrightarrow> \<not> enabled s \<Longrightarrow> xeq (fade s) (Fin 0) \<Longrightarrow>
     xeq (fade (fade_all s vs)) (Fin 0)"
  by (induction vs arbitrary: s) (simp_all add: fade_stay_zero qx_fader_fade_fields)

lemma ceiling_steps:
  assumes d: "0 < d" "d \<le> (1::real)"
  shows "1 \<le> nat \<lceil>1 / d\<rceil>" "1 \<le> real (nat \<lceil>1 / d\<rceil>) * d"
    "k < nat \<lceil>1 / d\<rceil> \<Longrightarrow> real k * d < 1"
proof -
  have one: "1 \<le> 1 / d" using d by simp
  then have c: "1 \<le> \<lceil>1 / d\<rceil>" by linarith
  have "nat 1 \<le> nat \<lceil>1 / d\<rceil>" using c by (rule nat_mono)
  then show "1 \<le> nat \<lceil>1 / d\<rceil>" by simp
  have "1 / d \<le> real_of_int \<lceil>1 / d\<rceil>" by (rule le_of_int_ceiling)
  also have "\<dots> = real (nat \<lceil>1 / d\<rceil>)" using c by simp
  finally have "1 / d * d \<le> real (nat \<lceil>1 / d\<rceil>) * d" using d by (intro mult_right_mono) simp_all
  then show "1 \<le> real (nat \<lceil>1 / d\<rceil>) * d" using d by simp
  assume "k < nat \<lceil>1 / d\<rceil>"
  then have "int k < \<lceil>1 / d\<rceil>" by simp
  then have "real_of_int (int k) < 1 / d" by (simp only: less_ceiling_iff)
  then have "real k * d < 1 / d * d" using d by (intro mult_strict_right_mono) simp_all
  then show "real k * d < 1" using d by simp
qed

lemma fade_all_up_exact:
  assumes st: "step s = Fin d" and d: "0 < d" "d \<le> 1" and en: "enabled s" and z: "fade s = Fin 0"
    and fl: "\<forall>k\<in>{1..nat \<lceil>1 / d\<rceil>}. is_float (real k * d)"
  shows "length vs < nat \<lceil>1 / d\<rceil> \<Longrightarrow>
    xfinite (fade (fade_all s vs)) \<and> xval (fade (fade_all s vs)) = real (length vs) * d"
proof (induction vs rule: rev_induct)
  case Nil
  then show ?case using z by simp
next
  case (snoc v vs)
  let ?k = "Suc (length vs)"
  let ?t = "fade_all s vs"
  have f: "step ?t = Fin d" "enabled ?t"
    using fade_all_fields [of s vs] en st by simp_all
  have c: "xfinite (fade ?t)" "xval (fade ?t) = real (length vs) * d" using snoc by simp_all
  have lt0: "real (length vs) * d < 1" using snoc.prems by (intro ceiling_steps(3) [OF d]) simp
  have u: "xle (Fin 0) (fade ?t)" "xle (fade ?t) (Fin 1)"
    using c lt0 d xle_unit [of "fade ?t"] by simp_all
  have "?k \<in> {1..nat \<lceil>1 / d\<rceil>}" using snoc.prems by simp
  with fl have "is_float (real ?k * d)" by (rule bspec)
  then have r: "fround (real (length vs) * d + d) = real ?k * d"
    by (simp add: is_float_def algebra_simps)
  have lt: "real ?k * d < 1" using snoc.prems by (intro ceiling_steps(3) [OF d]) simp
  have ge: "0 \<le> real ?k * d" using d by simp
  have "xfinite (fade (snd (qx_fader_fade ?t v))) \<and>
    xval (fade (snd (qx_fader_fade ?t v))) = max 0 (min 1 (fround (real (length vs) * d + d)))"
    using qx_fader_fade_value [OF u f(1), of v] d f(2) by (simp add: c(2))
  then show ?case using lt ge by (simp only: fade_all_snoc r length_append_singleton) simp
qed

lemma fade_all_down_exact:
  assumes st: "step s = Fin d" and d: "0 < d" "d \<le> 1" and en: "\<not> enabled s" and z: "fade s = Fin 1"
    and fl: "\<forall>k\<in>{1..nat \<lceil>1 / d\<rceil>}. is_float (1 - real k * d)"
  shows "length vs < nat \<lceil>1 / d\<rceil> \<Longrightarrow>
    xfinite (fade (fade_all s vs)) \<and> xval (fade (fade_all s vs)) = 1 - real (length vs) * d"
proof (induction vs rule: rev_induct)
  case Nil
  then show ?case using z by simp
next
  case (snoc v vs)
  let ?k = "Suc (length vs)"
  let ?t = "fade_all s vs"
  have f: "step ?t = Fin d" "\<not> enabled ?t"
    using fade_all_fields [of s vs] en st by simp_all
  have c: "xfinite (fade ?t)" "xval (fade ?t) = 1 - real (length vs) * d" using snoc by simp_all
  have lt0: "real (length vs) * d < 1" using snoc.prems by (intro ceiling_steps(3) [OF d]) simp
  have ge0: "0 \<le> real (length vs) * d" using d by simp
  have u: "xle (Fin 0) (fade ?t)" "xle (fade ?t) (Fin 1)"
    using c lt0 ge0 xle_unit [of "fade ?t"] by simp_all
  have "?k \<in> {1..nat \<lceil>1 / d\<rceil>}" using snoc.prems by simp
  with fl have "is_float (1 - real ?k * d)" by (rule bspec)
  then have r: "fround (1 - real (length vs) * d + - d) = 1 - real ?k * d"
    by (simp add: is_float_def algebra_simps)
  have lt: "real ?k * d < 1" using snoc.prems by (intro ceiling_steps(3) [OF d]) simp
  have ge: "0 \<le> real ?k * d" using d by simp
  have "xfinite (fade (snd (qx_fader_fade ?t v))) \<and>
    xval (fade (snd (qx_fader_fade ?t v))) = max 0 (min 1 (fround (1 - real (length vs) * d + - d)))"
    using qx_fader_fade_value [OF u f(1), of v] d f(2) by (simp add: c(2))
  then show ?case using lt ge by (simp only: fade_all_snoc r length_append_singleton) simp
qed

lemma split_at_steps:
  assumes "1 \<le> N" "N \<le> length vs"
  shows "\<exists>ws w us. vs = (ws @ [w]) @ us \<and> length ws < N \<and> Suc (length ws) = N"
proof -
  have "take N vs \<noteq> []" using assms by auto
  then obtain ws w where t: "take N vs = ws @ [w]" by (metis rev_exhaust)
  have "length (take N vs) = N" using assms by simp
  then have "Suc (length ws) = N" by (simp add: t)
  moreover have "vs = (ws @ [w]) @ drop N vs" by (simp only: t [symmetric] append_take_drop_id)
  ultimately show ?thesis by auto
qed

lemma fade_all_up_reach:
  assumes st: "step s = Fin d" and d: "0 < d" "d \<le> 1" and en: "enabled s" and z: "fade s = Fin 0"
    and fl: "\<forall>k\<in>{1..nat \<lceil>1 / d\<rceil>}. is_float (real k * d)"
    and n: "nat \<lceil>1 / d\<rceil> \<le> length vs"
  shows "fade (fade_all s vs) = Fin 1"
proof -
  let ?N = "nat \<lceil>1 / d\<rceil>"
  obtain ws w us where v: "vs = (ws @ [w]) @ us" "length ws < ?N" "Suc (length ws) = ?N"
    using split_at_steps [OF ceiling_steps(1) [OF d] n] by blast
  let ?t = "fade_all s ws"
  have f: "step ?t = Fin d" "enabled ?t"
    using fade_all_fields [of s ws] en st by simp_all
  have c: "xfinite (fade ?t) \<and> xval (fade ?t) = real (length ws) * d"
    using st d en z fl v(2) by (rule fade_all_up_exact)
  have lt0: "real (length ws) * d < 1" using v(2) by (intro ceiling_steps(3) [OF d])
  have u: "xle (Fin 0) (fade ?t)" "xle (fade ?t) (Fin 1)"
    using c lt0 d xle_unit [of "fade ?t"] by simp_all
  have "?N \<in> {1..?N}" using ceiling_steps(1) [OF d] by simp
  with fl have "is_float (real ?N * d)" by (rule bspec)
  then have r: "fround (real (length ws) * d + d) = real ?N * d"
    by (simp add: is_float_def algebra_simps flip: v(3))
  have ge: "1 \<le> real ?N * d" by (rule ceiling_steps(2) [OF d])
  have "xfinite (fade (snd (qx_fader_fade ?t w))) \<and>
    xval (fade (snd (qx_fader_fade ?t w))) = max 0 (min 1 (fround (real (length ws) * d + d)))"
    using qx_fader_fade_value [OF u f(1), of w] d f(2) c by simp
  then have "xfinite (fade (fade_all s (ws @ [w]))) \<and> xval (fade (fade_all s (ws @ [w]))) = 1"
    using ge by (simp only: fade_all_snoc r) simp
  then have one: "fade (fade_all s (ws @ [w])) = Fin 1"
    by (cases "fade (fade_all s (ws @ [w]))") simp_all
  have g: "step (fade_all s (ws @ [w])) = Fin d" "enabled (fade_all s (ws @ [w]))"
    using fade_all_fields [of s "ws @ [w]"] en st by simp_all
  have "fade (fade_all (fade_all s (ws @ [w])) us) = Fin 1"
    by (rule fade_all_stay_one [OF g(1) _ d(2) g(2) one]) (use d in simp)
  then show ?thesis by (simp only: v(1) fade_all_append)
qed

lemma fade_all_down_reach:
  assumes st: "step s = Fin d" and d: "0 < d" "d \<le> 1" and en: "\<not> enabled s" and z: "fade s = Fin 1"
    and fl: "\<forall>k\<in>{1..nat \<lceil>1 / d\<rceil>}. is_float (1 - real k * d)"
    and n: "nat \<lceil>1 / d\<rceil> \<le> length vs"
  shows "xeq (fade (fade_all s vs)) (Fin 0)"
proof -
  let ?N = "nat \<lceil>1 / d\<rceil>"
  obtain ws w us where v: "vs = (ws @ [w]) @ us" "length ws < ?N" "Suc (length ws) = ?N"
    using split_at_steps [OF ceiling_steps(1) [OF d] n] by blast
  let ?t = "fade_all s ws"
  have f: "step ?t = Fin d" "\<not> enabled ?t"
    using fade_all_fields [of s ws] en st by simp_all
  have c: "xfinite (fade ?t) \<and> xval (fade ?t) = 1 - real (length ws) * d"
    using st d en z fl v(2) by (rule fade_all_down_exact)
  have lt0: "real (length ws) * d < 1" using v(2) by (intro ceiling_steps(3) [OF d])
  have ge0: "0 \<le> real (length ws) * d" using d by simp
  have u: "xle (Fin 0) (fade ?t)" "xle (fade ?t) (Fin 1)"
    using c lt0 ge0 xle_unit [of "fade ?t"] by simp_all
  have "?N \<in> {1..?N}" using ceiling_steps(1) [OF d] by simp
  with fl have "is_float (1 - real ?N * d)" by (rule bspec)
  then have r: "fround (1 - real (length ws) * d + - d) = 1 - real ?N * d"
    by (simp add: is_float_def algebra_simps flip: v(3))
  have ge: "1 \<le> real ?N * d" by (rule ceiling_steps(2) [OF d])
  have "xfinite (fade (snd (qx_fader_fade ?t w))) \<and>
    xval (fade (snd (qx_fader_fade ?t w))) = max 0 (min 1 (fround (1 - real (length ws) * d + - d)))"
    using qx_fader_fade_value [OF u f(1), of w] d f(2) c by simp
  then have "xfinite (fade (fade_all s (ws @ [w]))) \<and> xval (fade (fade_all s (ws @ [w]))) = 0"
    using ge by (simp only: fade_all_snoc r) simp
  then have zero: "xeq (fade (fade_all s (ws @ [w]))) (Fin 0)" by (simp add: xeq_zero)
  have g: "step (fade_all s (ws @ [w])) = Fin d" "\<not> enabled (fade_all s (ws @ [w]))"
    using fade_all_fields [of s "ws @ [w]"] en st by simp_all
  have "xeq (fade (fade_all (fade_all s (ws @ [w])) us)) (Fin 0)"
    by (rule fade_all_stay_zero [OF g(1) _ d(2) g(2) zero]) (use d in simp)
  then show ?thesis by (simp only: v(1) fade_all_append)
qed

text \<open>
  Claim C5, as amended. For every fader with \<open>0 < step \<le> 1\<close>: after
  \<open>qx_fader_enable\<close> with true, the fade values of successive \<open>qx_fader_fade\<close> calls
  never decrease and stay at 1 once they are 1; they are 1 from call \<open>\<lceil>1 / step\<rceil>\<close> on
  when the multiples \<open>k * step\<close>, \<open>k \<le> \<lceil>1 / step\<rceil>\<close>, are binary32 numbers, so that
  the additions are exact. Symmetrically after \<open>qx_fader_enable\<close> with false: the values
  never increase, stay at 0 once they are 0, and are 0 from call \<open>\<lceil>1 / step\<rceil>\<close> on when
  the values \<open>1 - k * step\<close> are binary32 numbers.
\<close>

theorem fader_fade_monotone:
  assumes "xlt (Fin 0) (step s)" "xle (step s) (Fin 1)"
  shows "xle (fade (fade_all (qx_fader_enable s True) vs))
        (fade (fade_all (qx_fader_enable s True) (vs @ [v]))) \<and>
    (xeq (fade (fade_all (qx_fader_enable s True) vs)) (Fin 1) \<longrightarrow>
       xeq (fade (fade_all (qx_fader_enable s True) (vs @ ws))) (Fin 1)) \<and>
    ((\<forall>k\<in>{1..nat \<lceil>1 / xval (step s)\<rceil>}. is_float (real k * xval (step s))) \<longrightarrow>
       nat \<lceil>1 / xval (step s)\<rceil> \<le> length vs \<longrightarrow>
       xeq (fade (fade_all (qx_fader_enable s True) vs)) (Fin 1)) \<and>
    xle (fade (fade_all (qx_fader_enable s False) (vs @ [v])))
        (fade (fade_all (qx_fader_enable s False) vs)) \<and>
    (xeq (fade (fade_all (qx_fader_enable s False) vs)) (Fin 0) \<longrightarrow>
       xeq (fade (fade_all (qx_fader_enable s False) (vs @ ws))) (Fin 0)) \<and>
    ((\<forall>k\<in>{1..nat \<lceil>1 / xval (step s)\<rceil>}. is_float (1 - real k * xval (step s))) \<longrightarrow>
       nat \<lceil>1 / xval (step s)\<rceil> \<le> length vs \<longrightarrow>
       xeq (fade (fade_all (qx_fader_enable s False) vs)) (Fin 0))"
proof -
  let ?up = "qx_fader_enable s True" and ?dn = "qx_fader_enable s False"
  note e = qx_fader_enable_fields
  obtain d where st: "step s = Fin d" and d: "0 < d" "d \<le> 1"
    using assms by (cases "step s") (simp_all add: xlt_def xle_def)
  have d0: "0 \<le> d" using d by simp
  have v: "xval (step s) = d" by (simp add: st)
  have su: "step ?up = Fin d" and sd: "step ?dn = Fin d" by (simp_all add: e st)
  have fu: "step (fade_all ?up xs) = Fin d" "enabled (fade_all ?up xs)" for xs
    using fade_all_fields [of ?up xs] by (simp_all add: e st)
  have fd: "step (fade_all ?dn xs) = Fin d" "\<not> enabled (fade_all ?dn xs)" for xs
    using fade_all_fields [of ?dn xs] by (simp_all add: e st)
  have uu: "xle (Fin 0) (fade (fade_all ?up xs)) \<and> xle (fade (fade_all ?up xs)) (Fin 1) \<and>
      is_float (xval (fade (fade_all ?up xs)))" for xs
    by (rule fade_all_unit [OF su d0 d(2)]) (simp_all add: e xle_def is_float_zero)
  have ud: "xle (Fin 0) (fade (fade_all ?dn xs)) \<and> xle (fade (fade_all ?dn xs)) (Fin 1) \<and>
      is_float (xval (fade (fade_all ?dn xs)))" for xs
    by (rule fade_all_unit [OF sd d0 d(2)]) (simp_all add: e xle_def is_float_one)
  have fin_u: "xfinite (fade (fade_all ?up xs))" for xs
    using uu [of xs] xle_unit [of "fade (fade_all ?up xs)"] by simp
  have fin_d: "xfinite (fade (fade_all ?dn xs))" for xs
    using ud [of xs] xle_unit [of "fade (fade_all ?dn xs)"] by simp
  have "xval (fade (fade_all ?up vs)) \<le> xval (fade (snd (qx_fader_fade (fade_all ?up vs) v)))"
    using uu [of vs] fu [of vs] d0 d(2) by (intro fade_step_up) simp_all
  then have 1: "xle (fade (fade_all ?up vs)) (fade (fade_all ?up (vs @ [v])))"
    using fin_u [of vs] fin_u [of "vs @ [v]"] by (simp add: xle_finite fade_all_snoc)
  have 2: "xeq (fade (fade_all ?up vs)) (Fin 1) \<longrightarrow> xeq (fade (fade_all ?up (vs @ ws))) (Fin 1)"
  proof
    assume "xeq (fade (fade_all ?up vs)) (Fin 1)"
    then have "fade (fade_all ?up vs) = Fin 1"
      by (cases "fade (fade_all ?up vs)") (simp_all add: xeq_def)
    then have "fade (fade_all (fade_all ?up vs) ws) = Fin 1"
      by (rule fade_all_stay_one [OF fu(1) d0 d(2) fu(2)])
    then show "xeq (fade (fade_all ?up (vs @ ws))) (Fin 1)"
      by (simp add: fade_all_append xeq_def)
  qed
  have 3: "(\<forall>k\<in>{1..nat \<lceil>1 / xval (step s)\<rceil>}. is_float (real k * xval (step s))) \<longrightarrow>
       nat \<lceil>1 / xval (step s)\<rceil> \<le> length vs \<longrightarrow> xeq (fade (fade_all ?up vs)) (Fin 1)"
    unfolding v using fade_all_up_reach [OF su d, of vs] by (simp add: e xeq_def)
  have "xval (fade (snd (qx_fader_fade (fade_all ?dn vs) v))) \<le> xval (fade (fade_all ?dn vs))"
    using ud [of vs] fd [of vs] d0 d(2) by (intro fade_step_down) simp_all
  then have 4: "xle (fade (fade_all ?dn (vs @ [v]))) (fade (fade_all ?dn vs))"
    using fin_d [of vs] fin_d [of "vs @ [v]"] by (simp add: xle_finite fade_all_snoc)
  have 5: "xeq (fade (fade_all ?dn vs)) (Fin 0) \<longrightarrow> xeq (fade (fade_all ?dn (vs @ ws))) (Fin 0)"
  proof
    assume "xeq (fade (fade_all ?dn vs)) (Fin 0)"
    then have "xeq (fade (fade_all (fade_all ?dn vs) ws)) (Fin 0)"
      by (rule fade_all_stay_zero [OF fd(1) d0 d(2) fd(2)])
    then show "xeq (fade (fade_all ?dn (vs @ ws))) (Fin 0)" by (simp add: fade_all_append)
  qed
  have 6: "(\<forall>k\<in>{1..nat \<lceil>1 / xval (step s)\<rceil>}. is_float (1 - real k * xval (step s))) \<longrightarrow>
       nat \<lceil>1 / xval (step s)\<rceil> \<le> length vs \<longrightarrow> xeq (fade (fade_all ?dn vs)) (Fin 0)"
    unfolding v using fade_all_down_reach [OF sd d, of vs] by (simp add: e)
  show ?thesis using 1 2 3 4 5 6 by (intro conjI)
qed

theorem fader_fade_monotone_witness:
  "xlt (Fin 0) (Fin (1 / 8)) \<and> xle (Fin (1 / 8)) (Fin 1) \<and> nat \<lceil>1 / (1 / 8 :: real)\<rceil> = 8 \<and>
   xeq (fade (fade_all (qx_fader_enable \<lparr>fade = Fin 0, step = Fin (1 / 8), enabled = False\<rparr> True)
     (replicate 8 (Fin 0)))) (Fin 1) \<and>
   xeq (fade (fade_all (qx_fader_enable \<lparr>fade = Fin 0, step = Fin (1 / 8), enabled = False\<rparr> False)
     (replicate 8 (Fin 0)))) (Fin 0)"
proof -
  let ?s = "\<lparr>fade = Fin 0, step = Fin (1 / 8), enabled = False\<rparr>"
  have p: "xlt (Fin 0) (step ?s)" "xle (step ?s) (Fin 1)" by (simp_all add: xlt_def xle_def)
  have N: "nat \<lceil>1 / xval (step ?s)\<rceil> = 8" by simp
  have h: "is_float (real_of_int i / 8)" if "\<bar>i\<bar> < 2 ^ 24" for i
    using fround_dyadic [OF that, of 3] by (simp add: is_float_def)
  have up: "\<forall>k\<in>{1..nat \<lceil>1 / xval (step ?s)\<rceil>}. is_float (real k * xval (step ?s))"
  proof
    fix k assume "k \<in> {1..nat \<lceil>1 / xval (step ?s)\<rceil>}"
    then have "\<bar>int k\<bar> < 2 ^ 24" by simp
    then have "is_float (real_of_int (int k) / 8)" by (rule h)
    then show "is_float (real k * xval (step ?s))" by simp
  qed
  have dn: "\<forall>k\<in>{1..nat \<lceil>1 / xval (step ?s)\<rceil>}. is_float (1 - real k * xval (step ?s))"
  proof
    fix k assume "k \<in> {1..nat \<lceil>1 / xval (step ?s)\<rceil>}"
    then have "\<bar>8 - int k\<bar> < 2 ^ 24" by simp
    then have "is_float (real_of_int (8 - int k) / 8)" by (rule h)
    then show "is_float (1 - real k * xval (step ?s))" by (simp add: diff_divide_distrib)
  qed
  have l: "nat \<lceil>1 / xval (step ?s)\<rceil> \<le> length (replicate 8 (Fin 0))" by simp
  from fader_fade_monotone [OF p, of "replicate 8 (Fin 0)"] up dn l
  have "xeq (fade (fade_all (qx_fader_enable ?s True) (replicate 8 (Fin 0)))) (Fin 1) \<and>
    xeq (fade (fade_all (qx_fader_enable ?s False) (replicate 8 (Fin 0)))) (Fin 0)"
    by blast
  then show ?thesis by (simp add: xlt_def xle_def)
qed

text \<open>
  With rounding the bound need not be reached within \<open>\<lceil>1 / step\<rceil>\<close> calls. With a step
  of \<open>1/12\<close> rounded to binary32 (a fade of 1000 ms at a rate of 12) the fade-in is at
  \<open>1 - 2^-23\<close> after twelve calls. And a step below half the spacing of the binary32
  numbers under 1 is lost in the rounding: with \<open>step = 2^-26\<close> (a fade of 1000 ms at a
  rate of \<open>2^26\<close>) the fade-out never leaves 1.
\<close>

lemma xround_Fin: "fround r = y \<Longrightarrow> y \<noteq> 0 \<Longrightarrow> \<bar>y\<bar> < 2 ^ 128 \<Longrightarrow> xround s r = Fin y"
  by (simp add: xround_def)

lemma qx_fader_fade_in:
  assumes "fround (a + d) = y" "0 < y" "y \<le> 1"
  shows "snd (qx_fader_fade \<lparr>fade = Fin a, step = Fin d, enabled = True\<rparr> v) =
    \<lparr>fade = Fin y, step = Fin d, enabled = True\<rparr>"
proof -
  have "xround (a < 0 \<and> d < 0) (a + d) = Fin y"
    using assms by (intro xround_Fin) simp_all
  then show ?thesis using assms(2,3)
    by (simp add: qx_fader_fade_def xadd_def qx_clamp_float_def xlt_def)
qed

lemma qx_fader_init_rate:
  assumes "fround r = r" "0 < r" "r < 2 ^ 128" "fround (1 / r) = y" "0 < y" "y < 2 ^ 128"
  shows "qx_fader_init (Fin 1000) (Fin r) = \<lparr>fade = Fin 0, step = Fin y, enabled = False\<rparr>"
proof -
  have a: "xdiv (Fin 1000) (Fin 1000) = Fin 1"
    by (simp add: xdiv_def xzero_def xround_def fround_one)
  have "xround (r < 0) r = Fin r" using assms by (intro xround_Fin) simp_all
  then have b: "xmul (Fin 1) (Fin r) = Fin r" using assms(2) by (simp add: xmul_def)
  have "xround (r < 0) (1 / r) = Fin y" using assms by (intro xround_Fin) simp_all
  then have c: "xdiv (Fin 1) (Fin r) = Fin y" using assms(2) by (simp add: xdiv_def xzero_def)
  show ?thesis by (simp add: qx_fader_init_def xle_def a b c)
qed

lemma fader_twelve_calls:
  "fader_scenario (Fin 1000) (Fin 12) True (replicate 12 (Fin 0)) = Fin (8388607 / 8388608) \<and>
   nat \<lceil>1 / (11184811 / 134217728 :: real)\<rceil> = 12"
proof -
  have i: "qx_fader_init (Fin 1000) (Fin 12) =
      \<lparr>fade = Fin 0, step = Fin (11184811 / 134217728), enabled = False\<rparr>"
    by (rule qx_fader_init_rate) (simp_all add: fround_numeral fround_twelfths)
  have c: "\<lceil>134217728 / 11184811 :: real\<rceil> = 12" by (rule ceiling_unique) simp_all
  note f = qx_fader_fade_in [where d = "11184811 / 134217728" and v = "Fin 0"]
  have f1: "snd (qx_fader_fade \<lparr>fade = Fin 0, step = Fin (11184811 / 134217728), enabled = True\<rparr> (Fin 0)) =
      \<lparr>fade = Fin (11184811 / 134217728), step = Fin (11184811 / 134217728), enabled = True\<rparr>"
    by (rule f) (simp_all add: fround_twelfths)
  have f2: "snd (qx_fader_fade \<lparr>fade = Fin (11184811 / 134217728), step = Fin (11184811 / 134217728), enabled = True\<rparr> (Fin 0)) =
      \<lparr>fade = Fin (11184811 / 67108864), step = Fin (11184811 / 134217728), enabled = True\<rparr>"
    by (rule f) (simp_all add: fround_twelfths)
  have f3: "snd (qx_fader_fade \<lparr>fade = Fin (11184811 / 67108864), step = Fin (11184811 / 134217728), enabled = True\<rparr> (Fin 0)) =
      \<lparr>fade = Fin (1 / 4), step = Fin (11184811 / 134217728), enabled = True\<rparr>"
    by (rule f) (simp_all add: fround_twelfths)
  have f4: "snd (qx_fader_fade \<lparr>fade = Fin (1 / 4), step = Fin (11184811 / 134217728), enabled = True\<rparr> (Fin 0)) =
      \<lparr>fade = Fin (11184811 / 33554432), step = Fin (11184811 / 134217728), enabled = True\<rparr>"
    by (rule f) (simp_all add: fround_twelfths)
  have f5: "snd (qx_fader_fade \<lparr>fade = Fin (11184811 / 33554432), step = Fin (11184811 / 134217728), enabled = True\<rparr> (Fin 0)) =
      \<lparr>fade = Fin (6990507 / 16777216), step = Fin (11184811 / 134217728), enabled = True\<rparr>"
    by (rule f) (simp_all add: fround_twelfths)
  have f6: "snd (qx_fader_fade \<lparr>fade = Fin (6990507 / 16777216), step = Fin (11184811 / 134217728), enabled = True\<rparr> (Fin 0)) =
      \<lparr>fade = Fin (1 / 2), step = Fin (11184811 / 134217728), enabled = True\<rparr>"
    by (rule f) (simp_all add: fround_twelfths)
  have f7: "snd (qx_fader_fade \<lparr>fade = Fin (1 / 2), step = Fin (11184811 / 134217728), enabled = True\<rparr> (Fin 0)) =
      \<lparr>fade = Fin (9786709 / 16777216), step = Fin (11184811 / 134217728), enabled = True\<rparr>"
    by (rule f) (simp_all add: fround_twelfths)
  have f8: "snd (qx_fader_fade \<lparr>fade = Fin (9786709 / 16777216), step = Fin (11184811 / 134217728), enabled = True\<rparr> (Fin 0)) =
      \<lparr>fade = Fin (5592405 / 8388608), step = Fin (11184811 / 134217728), enabled = True\<rparr>"
    by (rule f) (simp_all add: fround_twelfths)
  have f9: "snd (qx_fader_fade \<lparr>fade = Fin (5592405 / 8388608), step = Fin (11184811 / 134217728), enabled = True\<rparr> (Fin 0)) =
      \<lparr>fade = Fin (12582911 / 16777216), step = Fin (11184811 / 134217728), enabled = True\<rparr>"
    by (rule f) (simp_all add: fround_twelfths)
  have f10: "snd (qx_fader_fade \<lparr>fade = Fin (12582911 / 16777216), step = Fin (11184811 / 134217728), enabled = True\<rparr> (Fin 0)) =
      \<lparr>fade = Fin (3495253 / 4194304), step = Fin (11184811 / 134217728), enabled = True\<rparr>"
    by (rule f) (simp_all add: fround_twelfths)
  have f11: "snd (qx_fader_fade \<lparr>fade = Fin (3495253 / 4194304), step = Fin (11184811 / 134217728), enabled = True\<rparr> (Fin 0)) =
      \<lparr>fade = Fin (15379113 / 16777216), step = Fin (11184811 / 134217728), enabled = True\<rparr>"
    by (rule f) (simp_all add: fround_twelfths)
  have f12: "snd (qx_fader_fade \<lparr>fade = Fin (15379113 / 16777216), step = Fin (11184811 / 134217728), enabled = True\<rparr> (Fin 0)) =
      \<lparr>fade = Fin (8388607 / 8388608), step = Fin (11184811 / 134217728), enabled = True\<rparr>"
    by (rule f) (simp_all add: fround_twelfths)
  have "fade_all \<lparr>fade = Fin 0, step = Fin (11184811 / 134217728), enabled = True\<rparr> (replicate 12 (Fin 0)) =
      \<lparr>fade = Fin (8388607 / 8388608), step = Fin (11184811 / 134217728), enabled = True\<rparr>"
    by (simp add: f1 f2 f3 f4 f5 f6 f7 f8 f9 f10 f11 f12 eval_nat_numeral)
  then show ?thesis by (simp add: fader_scenario_def i qx_fader_enable_def c)
qed

lemma fround_below_one: "fround (1 + - (1 / 67108864)) = 1"
  by (subst fround_eqI [where e = 125]) (simp_all add: fscale_def rne_def)

lemma fader_stuck_at_one:
  assumes "step s = Fin (1 / 67108864)" "\<not> enabled s" "fade s = Fin 1"
  shows "fade (fade_all s vs) = Fin 1"
  using assms
proof (induction vs arbitrary: s)
  case Nil
  then show ?case by simp
next
  case (Cons v vs)
  have "xround False (1 + - (1 / 67108864)) = Fin 1"
    by (rule xround_Fin [OF fround_below_one]) simp_all
  then have "xadd (fade s) (if enabled s then step s else xneg (step s)) = Fin 1"
    by (simp add: Cons.prems xadd_def)
  then have "fade (snd (qx_fader_fade s v)) = Fin 1"
    by (simp add: qx_fader_fade_def Let_def qx_clamp_float_def xlt_def)
  then show ?case using Cons.prems by (simp add: Cons.IH qx_fader_fade_fields)
qed

lemma qx_fader_init_slow:
  "qx_fader_init (Fin 1000) (Fin 67108864) =
     \<lparr>fade = Fin 0, step = Fin (1 / 67108864), enabled = False\<rparr>"
proof -
  have a: "fround 67108864 = 67108864" using fround_int_pow2 [of 1 26] by simp
  have b: "fround (1 / 67108864) = 1 / 67108864" using fround_dyadic [of 1 26] by simp
  show ?thesis by (rule qx_fader_init_rate) (simp_all add: a b)
qed

theorem fader_stalls_counterexample:
  "fader_scenario (Fin 1000) (Fin 12) True (replicate 12 (Fin 0)) = Fin (8388607 / 8388608) \<and>
   nat \<lceil>1 / (11184811 / 134217728 :: real)\<rceil> = 12 \<and>
   fader_scenario (Fin 1000) (Fin 67108864) False (replicate 67108864 (Fin 0)) = Fin 1 \<and>
   nat \<lceil>1 / (1 / 67108864 :: real)\<rceil> = 67108864"
  using fader_twelve_calls
  by (simp add: fader_scenario_def qx_fader_init_slow fader_stuck_at_one qx_fader_enable_fields)

section \<open>Ring buffer interpolation\<close>

lemma truncation_bounds:
  fixes x :: real
  defines "t \<equiv> (if 0 \<le> x then \<lfloor>x\<rfloor> else \<lceil>x\<rceil>)"
  shows "0 \<le> t \<longleftrightarrow> - 1 < x" and "t < n \<longleftrightarrow> (if 0 \<le> x then x < real_of_int n else 0 < n \<or> x \<le> real_of_int n - 1)"
proof -
  show "0 \<le> t \<longleftrightarrow> - 1 < x"
  proof (cases "0 \<le> x")
    case True
    then show ?thesis by (simp add: t_def)
  next
    case False
    have "0 \<le> \<lceil>x\<rceil> \<longleftrightarrow> - 1 < x" using le_ceiling_iff [of 0 x] by simp
    then show ?thesis using False by (simp add: t_def)
  qed
  show "t < n \<longleftrightarrow> (if 0 \<le> x then x < real_of_int n else 0 < n \<or> x \<le> real_of_int n - 1)"
  proof (cases "0 \<le> x")
    case True
    then show ?thesis by (simp add: t_def floor_less_iff)
  next
    case False
    have "\<lceil>x\<rceil> < n \<longleftrightarrow> x \<le> real_of_int n - 1" using ceiling_less_iff [of x n] by simp
    moreover have "0 < n \<Longrightarrow> x \<le> real_of_int n - 1" using False by simp
    ultimately show ?thesis using False by (auto simp: t_def)
  qed
qed

lemma ring_positions_cases:
  assumes sz: "1 \<le> sz" "sz \<le> 1073741824"
  shows "(\<exists>i1 i2. ring_positions index sz = Some (i1, i2) \<and> 0 \<le> i1 \<and> i1 < sz \<and> 0 \<le> i2 \<and> i2 < sz)
    \<longleftrightarrow> (0 \<le> (if 0 \<le> index then \<lfloor>index\<rfloor> else \<lceil>index\<rceil>) \<and>
         (if 0 \<le> index then \<lfloor>index\<rfloor> else \<lceil>index\<rceil>) < 2 * sz - 1)"
proof -
  define t where "t = (if 0 \<le> index then \<lfloor>index\<rfloor> else \<lceil>index\<rceil>)"
  have r: "ring_positions index sz = do {
     i1 \<leftarrow> c_int t;
     i2 \<leftarrow> c_int (i1 + 1);
     i1' \<leftarrow> (if i1 \<ge> sz then c_int (i1 - sz) else Some i1);
     i2' \<leftarrow> (if i2 \<ge> sz then c_int (i2 - sz) else Some i2);
     Some (i1', i2')
   }" by (simp add: ring_positions_def int_of_float_def t_def)
  have "(\<exists>i1 i2. ring_positions index sz = Some (i1, i2) \<and> 0 \<le> i1 \<and> i1 < sz \<and> 0 \<le> i2 \<and> i2 < sz)
    \<longleftrightarrow> (0 \<le> t \<and> t < 2 * sz - 1)"
    unfolding r using sz by (auto simp: c_int_def split: Option.bind_splits if_splits)
  then show ?thesis by (simp only: t_def)
qed


text \<open>
  Claim C10, as amended. For every size from 1 to \<open>2^30\<close>, both positions that
  \<open>qx_ring_interp_linear\<close> computes lie in \<open>[0, size)\<close> after their single wrap exactly
  when \<open>-1 < index < 2 * size - 1\<close>. So every read is in bounds for
  \<open>0 \<le> index < size + 1\<close> when the size is at least 2; and for an index of \<open>-1\<close> or less,
  or of \<open>2 * size - 1\<close> or more, the function has no two positions inside \<open>[0, size)\<close>.
\<close>

theorem ring_positions_in_bounds:
  assumes "1 \<le> sz" "sz \<le> 1073741824"
  shows "((\<exists>i1 i2. ring_positions index sz = Some (i1, i2) \<and>
             0 \<le> i1 \<and> i1 < sz \<and> 0 \<le> i2 \<and> i2 < sz)
          \<longleftrightarrow> - 1 < index \<and> index < 2 * real_of_int sz - 1) \<and>
    (2 \<le> sz \<and> 0 \<le> index \<and> index < real_of_int sz + 1 \<longrightarrow>
       (\<exists>i1 i2. ring_positions index sz = Some (i1, i2) \<and>
             0 \<le> i1 \<and> i1 < sz \<and> 0 \<le> i2 \<and> i2 < sz))"
proof -
  let ?t = "if 0 \<le> index then \<lfloor>index\<rfloor> else \<lceil>index\<rceil>"
  have a: "0 \<le> ?t \<longleftrightarrow> - 1 < index" by (rule truncation_bounds(1))
  have "?t < 2 * sz - 1 \<longleftrightarrow>
      (if 0 \<le> index then index < real_of_int (2 * sz - 1)
       else 0 < 2 * sz - 1 \<or> index \<le> real_of_int (2 * sz - 1) - 1)"
    by (rule truncation_bounds(2))
  then have b: "?t < 2 * sz - 1 \<longleftrightarrow> index < 2 * real_of_int sz - 1"
    using assms by (cases "0 \<le> index") simp_all
  have iff: "(\<exists>i1 i2. ring_positions index sz = Some (i1, i2) \<and>
             0 \<le> i1 \<and> i1 < sz \<and> 0 \<le> i2 \<and> i2 < sz)
          \<longleftrightarrow> - 1 < index \<and> index < 2 * real_of_int sz - 1"
    using ring_positions_cases [OF assms, of index] a b by simp
  have "- 1 < index \<and> index < 2 * real_of_int sz - 1"
    if "2 \<le> sz" "0 \<le> index" "index < real_of_int sz + 1"
  proof -
    have "real_of_int sz + 1 \<le> 2 * real_of_int sz - 1" using that(1) by simp
    then show ?thesis using that by linarith
  qed
  then show ?thesis using iff by blast
qed

theorem ring_positions_in_bounds_witness:
  "(1::int) \<le> 4 \<and> (4::int) \<le> 1073741824 \<and> (- 1::real) < 7 / 2 \<and> (7 / 2 :: real) < 2 * real_of_int 4 - 1 \<and>
   (\<exists>i1 i2. ring_positions (7 / 2) 4 = Some (i1, i2) \<and> 0 \<le> i1 \<and> i1 < 4 \<and> 0 \<le> i2 \<and> i2 < 4)"
proof -
  have s: "(1::int) \<le> 4" "(4::int) \<le> 1073741824" by simp_all
  have i: "(- 1::real) < 7 / 2 \<and> (7 / 2 :: real) < 2 * real_of_int 4 - 1" by simp
  with ring_positions_in_bounds [OF s, of "7 / 2"]
  have "\<exists>i1 i2. ring_positions (7 / 2) 4 = Some (i1, i2) \<and> 0 \<le> i1 \<and> i1 < 4 \<and> 0 \<le> i2 \<and> i2 < 4"
    by blast
  then show ?thesis by simp
qed

text \<open>
  Two inputs the claim as first stated gets wrong: with size 1 and index 1 the second
  position is 1, outside the buffer; and the cast truncates towards zero, so the negative
  index \<open>-0.5\<close> gives the positions 0 and 1, both inside a buffer of size 4.
\<close>

theorem ring_positions_counterexample:
  "ring_positions 1 1 = Some (0, 1) \<and> ring_positions (- 1 / 2) 4 = Some (0, 1)"
proof -
  have "\<lceil>- (1 / 2) :: real\<rceil> = 0" by (rule ceiling_unique) simp_all
  then show ?thesis by (simp add: ring_positions_def int_of_float_def c_int_def)
qed

text \<open>
  Claim C8, as amended. For every buffer of size at least 1 and every index with
  \<open>0 \<le> index < size\<close>, \<open>qx_ring_interp_linear\<close> returns
  \<open>buf[i1] + k * (buf[i2] - buf[i1])\<close>, each operation rounded to binary32, where
  \<open>i1 = \<lfloor>index\<rfloor>\<close>, \<open>i2 = i1 + 1\<close> reduced by the size once if it reaches it, and
  \<open>k = index - (float)i1\<close>. In particular the buffer 1, 2, 3, 4 read at 3.5 gives 2.5.
\<close>

theorem ring_interp_linear_value:
  assumes "int (length buf) = sz" "1 \<le> sz" "sz \<le> 2147483647"
    and "0 \<le> index" "index < real_of_int sz"
  shows "qx_ring_interp_linear buf index sz =
      Some (fadd (buf ! nat \<lfloor>index\<rfloor>)
             (fmul (fsub index (float_of_int \<lfloor>index\<rfloor>))
                (fsub (buf ! nat (if \<lfloor>index\<rfloor> + 1 \<ge> sz then \<lfloor>index\<rfloor> + 1 - sz else \<lfloor>index\<rfloor> + 1))
                      (buf ! nat \<lfloor>index\<rfloor>)))) \<and>
    qx_ring_interp_linear [1, 2, 3, 4] (7 / 2) 4 = Some (5 / 2)"
proof -
  define t where "t = \<lfloor>index\<rfloor>"
  have t: "0 \<le> t" "t < sz" using assms by (simp_all add: t_def floor_less_iff)
  have c: "int_of_float index = Some t"
    using assms t by (simp add: int_of_float_def c_int_def t_def)
  have p: "ring_positions index sz = Some (t, if t + 1 \<ge> sz then t + 1 - sz else t + 1)"
    using t assms by (simp add: ring_positions_def c c_int_def)
  have g: "qx_ring_interp_linear buf index sz =
      Some (fadd (buf ! nat t)
             (fmul (fsub index (float_of_int t))
                (fsub (buf ! nat (if t + 1 \<ge> sz then t + 1 - sz else t + 1)) (buf ! nat t))))"
    using t assms by (simp add: qx_ring_interp_linear_def p buf_at_def)
  have h: "fround (1 / 2) = 1 / 2" using fround_dyadic [of 1 1] by simp
  have "qx_ring_interp_linear [1, 2, 3, 4] (7 / 2) 4 = Some (5 / 2)"
    by (simp add: qx_ring_interp_linear_def ring_positions_def int_of_float_def c_int_def
        buf_at_def float_of_int_def fsub_def fmul_def fadd_def fround_numeral
        fround_numeral_half fround_minus h)
  with g show ?thesis by (simp only: t_def) 
qed

theorem ring_interp_linear_value_witness:
  "int (length [1, 2, 3, 4 :: real]) = 4 \<and> (1::int) \<le> 4 \<and> (4::int) \<le> 2147483647 \<and>
   (0::real) \<le> 5 / 2 \<and> (5 / 2 :: real) < real_of_int 4 \<and>
   qx_ring_interp_linear [1, 2, 3, 4] (5 / 2) 4 = Some (fadd 3 (fmul (fsub (5 / 2) (float_of_int 2)) (fsub 4 3)))"
proof -
  have a: "int (length [1, 2, 3, 4 :: real]) = 4" "(1::int) \<le> 4" "(4::int) \<le> 2147483647"
    "(0::real) \<le> 5 / 2" "(5 / 2 :: real) < real_of_int 4" by simp_all
  have f: "\<lfloor>5 / 2 :: real\<rfloor> = 2" by simp
  from ring_interp_linear_value [OF a]
  have "qx_ring_interp_linear [1, 2, 3, 4] (5 / 2) 4 =
      Some (fadd 3 (fmul (fsub (5 / 2) (float_of_int 2)) (fsub 4 3)))"
    by (simp only: f) simp
  then show ?thesis by simp
qed

text \<open>
  Beyond the size: a buffer of one element read at index 1 has its second read at
  position 1, outside the buffer; and at index 4.5 in a buffer of four the weight \<open>k\<close>,
  taken after \<open>i1\<close> was wrapped to 0, is 4.5, so the result 5.5 lies outside the two
  samples 1 and 2 it reads.
\<close>

theorem ring_interp_linear_counterexample:
  "qx_ring_interp_linear [7] 1 1 = None \<and>
   qx_ring_interp_linear [1, 2, 3, 4] (9 / 2) 4 = Some (11 / 2)"
proof -
  show ?thesis
    by (simp add: qx_ring_interp_linear_def ring_positions_def int_of_float_def c_int_def
        buf_at_def float_of_int_def fsub_def fmul_def fadd_def fround_numeral
        fround_numeral_half fround_one fround_zero)
qed

section \<open>The randomizer\<close>

lemma fround_uint32_max: "fround 4294967295 = 4294967296"
  by (subst fround_eqI [where e = 157]) (simp_all add: fscale_def rne_def)

lemma inv_max_uint_value: "fdiv 1 (float_of_nat UINT32_MAX) = Some (1 / 4294967296)"
proof -
  have "fround (1 / 4294967296) = 1 / 4294967296" using fround_dyadic [of 1 32] by simp
  then show ?thesis by (simp add: fdiv_def float_of_nat_def UINT32_MAX_def fround_uint32_max)
qed

lemma fround_half: "fround (1 / 2) = 1 / 2"
  using fround_dyadic [of 1 1] by simp

lemma int_of_float_2: "int_of_float 2 = Some 2"
  by (simp add: int_of_float_def c_int_def)

lemma qx_randomizer_init_0_3_2:
  "qx_randomizer_init 0 3 2 =
     Some \<lparr>seed = 856382025, min_r = 0, max_r = 3, resolution = 2, range_r = 3,
           inv_max_uint = 1 / 4294967296, max_steps = 2\<rparr>"
proof -
  have d: "fdiv 3 2 = Some (3 / 2)" by (simp add: fdiv_def fround_numeral_half)
  show ?thesis
    by (simp add: qx_randomizer_init_def inv_max_uint_value fsub_def fadd_def d
        fround_numeral int_of_float_2)
qed

lemma seed_step: "(3856011237 :: 32 word) * 1664525 + 1013904223 = 3221225472"
  by simp

lemma unat_seed: "unat (3221225472 :: 32 word) = 3221225472"
  by simp


lemma fround_seed: "fround 3221225472 = 3221225472"
  using fround_int_pow2 [of 3 30] by simp

lemma fround_quarters: "fround (3 / 4) = 3 / 4" "fround (9 / 4) = 9 / 4"
  using fround_dyadic [of 3 2] fround_dyadic [of 9 2] by simp_all

lemma int_of_float_9_4: "int_of_float (9 / 4) = Some 2"
proof -
  have "\<lfloor>9 / 4 :: real\<rfloor> = 2" by simp
  then show ?thesis by (simp add: int_of_float_def c_int_def)
qed

lemma qx_randomizer_get_float_c_in_range:
  assumes "qx_randomizer_get_float_c r = Some (y, r')" "min_c r \<le> max_c r"
  shows "min_c r \<le> y \<and> y \<le> max_c r"
  using assms
  by (auto simp: qx_randomizer_get_float_c_def Let_def split: Option.bind_splits if_splits)


text \<open>
  Claim C1 says that every draw of either variant lies in \<open>[min, max]\<close> when
  \<open>max \<ge> min\<close> and \<open>resolution > 0\<close>. The opaque variant clamps its result and keeps
  the promise (\<open>qx_randomizer_get_float_c_in_range\<close>). The inline variant does not: with
  \<open>min = 0\<close>, \<open>max = 3\<close> and \<open>resolution = 2\<close> the cached step count is
  \<open>(int)(1.5 + 0.5) = 2\<close>; the seed 3856011237 steps to \<open>0xC0000000\<close>, which normalises
  to 0.75, so the draw takes step \<open>(int)(0.75 * 3) = 2\<close> and returns \<open>0 + 2 * 2 = 4\<close>.
\<close>

theorem randomizer_draw_above_max:
  "first_draw 0 3 2 3856011237 = Some 4"
  by (simp add: first_draw_def qx_randomizer_init_0_3_2 qx_randomizer_set_seed_def
      qx_randomizer_get_float_def
      float_of_nat_def float_of_int_def fmul_def fadd_def c_int_def fround_seed fround_quarters
      fround_numeral int_of_float_9_4)

lemma fround_minus_half: "fround (- (1 / 2)) = - (1 / 2)"
  by (simp add: fround_minus fround_half)

lemma int_of_float_minus_half: "int_of_float (- (1 / 2)) = Some 0"
proof -
  have "\<lceil>- (1 / 2) :: real\<rceil> = 0" by (rule ceiling_unique) simp_all
  then show ?thesis by (simp add: int_of_float_def c_int_def)
qed

lemma qx_randomizer_init_c_resolution:
  "resolution_c (qx_randomizer_init_c mn mx res) = (if res \<le> 0 then 1 else res)"
  by (simp add: qx_randomizer_init_c_def)

lemma qx_randomizer_init_resolution:
  "qx_randomizer_init mn mx res = Some r \<Longrightarrow> resolution r = res"
  by (auto simp: qx_randomizer_init_def split: Option.bind_splits)

text \<open>
  Claim C3 says that every init variant stores 1 for a resolution of zero or less and
  the given resolution otherwise. The opaque variant does
  (\<open>qx_randomizer_init_c_resolution\<close>). The inline variant stores whatever it is given
  (\<open>qx_randomizer_init_resolution\<close>): for \<open>-1\<close> it stores \<open>-1\<close>.
\<close>

theorem randomizer_init_keeps_negative_resolution:
  "map_option resolution (qx_randomizer_init 0 1 (- 1)) = Some (- 1) \<and>
   resolution_c (qx_randomizer_init_c 0 1 (- 1)) = 1"
proof -
  have d: "fdiv 1 (- 1) = Some (- 1)" by (simp add: fdiv_def fround_minus fround_one)
  have a: "fadd (- 1) (1 / 2) = - (1 / 2)" by (simp add: fadd_def fround_minus_half)
  show ?thesis
    by (simp add: qx_randomizer_init_def inv_max_uint_value fsub_def fround_one d a
        int_of_float_minus_half qx_randomizer_init_c_def)
qed

subsection \<open>Draws are a function of seed, min, max and resolution\<close>

lemma qx_randomizer_init_caches:
  assumes "qx_randomizer_init mn mx res = Some r"
  shows "range_r r = fsub (max_r r) (min_r r)"
    and "fdiv 1 (float_of_nat UINT32_MAX) = Some (inv_max_uint r)"
    and "Option.bind (fdiv (range_r r) (resolution r)) (\<lambda>q. int_of_float (fadd q (1 / 2))) =
      Some (max_steps r)"
  using assms by (auto simp: qx_randomizer_init_def split: Option.bind_splits)

lemma qx_randomizer_set_range_caches:
  assumes "qx_randomizer_set_range r mn mx = Some r'"
    and "fdiv 1 (float_of_nat UINT32_MAX) = Some (inv_max_uint r)"
  shows "range_r r' = fsub (max_r r') (min_r r')"
    and "fdiv 1 (float_of_nat UINT32_MAX) = Some (inv_max_uint r')"
    and "Option.bind (fdiv (range_r r') (resolution r')) (\<lambda>q. int_of_float (fadd q (1 / 2))) =
      Some (max_steps r')"
  using assms by (auto simp: qx_randomizer_set_range_def Let_def split: Option.bind_splits)

lemma qx_randomizer_set_resolution_caches:
  assumes "qx_randomizer_set_resolution r res = Some r'"
    and "range_r r = fsub (max_r r) (min_r r)"
    and "fdiv 1 (float_of_nat UINT32_MAX) = Some (inv_max_uint r)"
  shows "range_r r' = fsub (max_r r') (min_r r')"
    and "fdiv 1 (float_of_nat UINT32_MAX) = Some (inv_max_uint r')"
    and "Option.bind (fdiv (range_r r') (resolution r')) (\<lambda>q. int_of_float (fadd q (1 / 2))) =
      Some (max_steps r')"
  using assms by (auto simp: qx_randomizer_set_resolution_def Let_def split: Option.bind_splits)

lemma configure_caches:
  assumes "configure r cs = Some r'"
    and "range_r r = fsub (max_r r) (min_r r) \<and>
      fdiv 1 (float_of_nat UINT32_MAX) = Some (inv_max_uint r) \<and>
      Option.bind (fdiv (range_r r) (resolution r)) (\<lambda>q. int_of_float (fadd q (1 / 2))) =
        Some (max_steps r)"
  shows "range_r r' = fsub (max_r r') (min_r r') \<and>
    fdiv 1 (float_of_nat UINT32_MAX) = Some (inv_max_uint r') \<and>
    Option.bind (fdiv (range_r r') (resolution r')) (\<lambda>q. int_of_float (fadd q (1 / 2))) =
      Some (max_steps r')"
  using assms
proof (induction r cs rule: configure.induct)
  case (1 r)
  then show ?case by auto
next
  case (2 r s cs)
  show ?case
    by (rule "2.IH") (use "2.prems" in \<open>auto simp: qx_randomizer_set_seed_def\<close>)
next
  case (3 r mn mx cs)
  from "3.prems"(1) obtain r1 where r1: "qx_randomizer_set_range r mn mx = Some r1"
    "configure r1 cs = Some r'" by (auto split: Option.bind_splits)
  from "3.prems"(2) have i: "fdiv 1 (float_of_nat UINT32_MAX) = Some (inv_max_uint r)" by blast
  note c = qx_randomizer_set_range_caches [OF r1(1) i]
  show ?case by (rule "3.IH" [OF r1(1) r1(2)]) (intro conjI c)
next
  case (4 r res cs)
  from "4.prems"(1) obtain r1 where r1: "qx_randomizer_set_resolution r res = Some r1"
    "configure r1 cs = Some r'" by (auto split: Option.bind_splits)
  from "4.prems"(2) have i: "fdiv 1 (float_of_nat UINT32_MAX) = Some (inv_max_uint r)"
    and g: "range_r r = fsub (max_r r) (min_r r)" by blast+
  note c = qx_randomizer_set_resolution_caches [OF r1(1) g i]
  show ?case by (rule "4.IH" [OF r1(1) r1(2)]) (intro conjI c)
qed

lemma configured_equal:
  assumes a: "qx_randomizer_init mn mx res = Some a0" "configure a0 cs = Some a"
    and b: "qx_randomizer_init mn' mx' res' = Some b0" "configure b0 cs' = Some b"
    and same: "seed a = seed b" "min_r a = min_r b" "max_r a = max_r b"
      "resolution a = resolution b"
  shows "a = b"
proof -
  note ia = qx_randomizer_init_caches [OF a(1)]
  note ib = qx_randomizer_init_caches [OF b(1)]
  have ca: "range_r a = fsub (max_r a) (min_r a)"
    "fdiv 1 (float_of_nat UINT32_MAX) = Some (inv_max_uint a)"
    "Option.bind (fdiv (range_r a) (resolution a)) (\<lambda>q. int_of_float (fadd q (1 / 2))) =
      Some (max_steps a)"
    using configure_caches [OF a(2)] ia by blast+
  have cb: "range_r b = fsub (max_r b) (min_r b)"
    "fdiv 1 (float_of_nat UINT32_MAX) = Some (inv_max_uint b)"
    "Option.bind (fdiv (range_r b) (resolution b)) (\<lambda>q. int_of_float (fadd q (1 / 2))) =
      Some (max_steps b)"
    using configure_caches [OF b(2)] ib by blast+
  have r: "range_r a = range_r b" using ca cb same by simp
  have i: "inv_max_uint a = inv_max_uint b" using ca cb by simp
  have "Some (max_steps a) = Some (max_steps b)"
    unfolding ca(3) [symmetric] cb(3) [symmetric] by (simp only: r same)
  then have m: "max_steps a = max_steps b" by simp
  show ?thesis using same r i m by (intro qx_randomizer.equality) simp_all
qed

lemma qx_randomizer_get_float_state:
  "qx_randomizer_get_float r = Some (y, r') \<Longrightarrow> r' = r\<lparr>seed := seed r * 1664525 + 1013904223\<rparr>"
  by (auto simp: qx_randomizer_get_float_def Let_def split: Option.bind_splits)

lemma draws_reseed:
  "draws k r = Some (ys, r') \<Longrightarrow> qx_randomizer_set_seed r' s = qx_randomizer_set_seed r s"
proof (induction k arbitrary: r ys)
  case 0
  then show ?case by simp
next
  case (Suc k)
  from Suc.prems obtain y r1 zs where g: "qx_randomizer_get_float r = Some (y, r1)"
    and d: "draws k r1 = Some (zs, r')"
    by (auto split: Option.bind_splits)
  have "qx_randomizer_set_seed r' s = qx_randomizer_set_seed r1 s" using d by (rule Suc.IH)
  also have "\<dots> = qx_randomizer_set_seed r s"
    using qx_randomizer_get_float_state [OF g] by (simp add: qx_randomizer_set_seed_def)
  finally show ?case .
qed

lemma qx_randomizer_get_float_c_state:
  "qx_randomizer_get_float_c r = Some (y, r') \<Longrightarrow> r' = r\<lparr>seed_c := qx_randomizer_next_seed (seed_c r)\<rparr>"
  by (auto simp: qx_randomizer_get_float_c_def Let_def split: Option.bind_splits)

lemma draws_c_reseed:
  "draws_c k r = Some (ys, r') \<Longrightarrow> qx_randomizer_set_seed_c r' s = qx_randomizer_set_seed_c r s"
proof (induction k arbitrary: r ys)
  case 0
  then show ?case by simp
next
  case (Suc k)
  from Suc.prems obtain y r1 zs where g: "qx_randomizer_get_float_c r = Some (y, r1)"
    and d: "draws_c k r1 = Some (zs, r')"
    by (auto split: Option.bind_splits)
  have "qx_randomizer_set_seed_c r' s = qx_randomizer_set_seed_c r1 s" using d by (rule Suc.IH)
  also have "\<dots> = qx_randomizer_set_seed_c r s"
    using qx_randomizer_get_float_c_state [OF g] by (simp add: qx_randomizer_set_seed_c_def)
  finally show ?case .
qed


text \<open>
  Claim C6. Two randomizer instances, each made by init and any sequence of the setters,
  that end with the same seed, min, max and resolution return the same values on any
  number of draws (the cached range, inverse and step count are functions of these
  four fields, so the two states are equal). A draw changes the seed only, so setting
  a seed reproduces the sequence drawn after that seed, however many draws came before.
  Both hold for the opaque variant as well. A draw reads nothing but the instance it is
  given: the only file-level object is the constant default seed.
\<close>

theorem randomizer_draws_deterministic:
  assumes "qx_randomizer_init mn mx res = Some a0" "configure a0 cs = Some a"
    and "qx_randomizer_init mn' mx' res' = Some b0" "configure b0 cs' = Some b"
    and "seed a = seed b" "min_r a = min_r b" "max_r a = max_r b" "resolution a = resolution b"
  shows "draws n a = draws n b \<and>
    (draws k a = Some (ys, a') \<longrightarrow>
       draws n (qx_randomizer_set_seed a' s) = draws n (qx_randomizer_set_seed a s)) \<and>
    (seed_c x = seed_c y \<and> min_c x = min_c y \<and> max_c x = max_c y \<and>
       resolution_c x = resolution_c y \<longrightarrow> draws_c n x = draws_c n y) \<and>
    (draws_c k x = Some (zs, x') \<longrightarrow>
       draws_c n (qx_randomizer_set_seed_c x' t) = draws_c n (qx_randomizer_set_seed_c x t))"
proof -
  have "a = b" using assms by (rule configured_equal)
  then have 1: "draws n a = draws n b" by simp
  have 2: "draws k a = Some (ys, a') \<longrightarrow>
       draws n (qx_randomizer_set_seed a' s) = draws n (qx_randomizer_set_seed a s)"
    using draws_reseed [of k a ys a' s] by auto
  have 3: "seed_c x = seed_c y \<and> min_c x = min_c y \<and> max_c x = max_c y \<and>
       resolution_c x = resolution_c y \<longrightarrow> draws_c n x = draws_c n y"
  proof
    assume "seed_c x = seed_c y \<and> min_c x = min_c y \<and> max_c x = max_c y \<and>
       resolution_c x = resolution_c y"
    then have "x = y" by (intro qx_randomizer_c.equality) simp_all
    then show "draws_c n x = draws_c n y" by simp
  qed
  have 4: "draws_c k x = Some (zs, x') \<longrightarrow>
       draws_c n (qx_randomizer_set_seed_c x' t) = draws_c n (qx_randomizer_set_seed_c x t)"
    using draws_c_reseed [of k x zs x' t] by auto
  show ?thesis using 1 2 3 4 by (intro conjI)
qed

lemma int_of_float_halves: "int_of_float (3 / 2) = Some 1" "int_of_float (7 / 2) = Some 3"
proof -
  have "\<lfloor>3 / 2 :: real\<rfloor> = 1" "\<lfloor>7 / 2 :: real\<rfloor> = 3" by simp_all
  then show "int_of_float (3 / 2) = Some 1" "int_of_float (7 / 2) = Some 3"
    by (simp_all add: int_of_float_def c_int_def)
qed

lemma qx_randomizer_init_0_1_1:
  "qx_randomizer_init 0 1 1 =
     Some \<lparr>seed = 856382025, min_r = 0, max_r = 1, resolution = 1, range_r = 1,
           inv_max_uint = 1 / 4294967296, max_steps = 1\<rparr>"
proof -
  have d: "fdiv 1 1 = Some 1" by (simp add: fdiv_def fround_one)
  show ?thesis
    by (simp add: qx_randomizer_init_def inv_max_uint_value fsub_def fadd_def d
        fround_one fround_numeral_half int_of_float_halves)
qed

lemma configure_0_3_2:
  "configure \<lparr>seed = 856382025, min_r = 0, max_r = 1, resolution = 1, range_r = 1,
           inv_max_uint = 1 / 4294967296, max_steps = 1\<rparr>
     [Set_Range 0 3, Set_Resolution 2, Set_Seed 42] =
   Some \<lparr>seed = 42, min_r = 0, max_r = 3, resolution = 2, range_r = 3,
           inv_max_uint = 1 / 4294967296, max_steps = 2\<rparr>"
proof -
  have d: "fdiv 3 1 = Some 3" "fdiv 3 2 = Some (3 / 2)"
    by (simp_all add: fdiv_def fround_numeral fround_numeral_half)
  show ?thesis
    by (simp add: qx_randomizer_set_range_def qx_randomizer_set_resolution_def
        qx_randomizer_set_seed_def fsub_def fadd_def d fround_numeral fround_numeral_half
        int_of_float_halves int_of_float_2)
qed

theorem randomizer_draws_deterministic_witness:
  "qx_randomizer_init 0 3 2 =
     Some \<lparr>seed = 856382025, min_r = 0, max_r = 3, resolution = 2, range_r = 3,
           inv_max_uint = 1 / 4294967296, max_steps = 2\<rparr> \<and>
   configure \<lparr>seed = 856382025, min_r = 0, max_r = 3, resolution = 2, range_r = 3,
           inv_max_uint = 1 / 4294967296, max_steps = 2\<rparr> [Set_Seed 42] =
     Some \<lparr>seed = 42, min_r = 0, max_r = 3, resolution = 2, range_r = 3,
           inv_max_uint = 1 / 4294967296, max_steps = 2\<rparr> \<and>
   qx_randomizer_init 0 1 1 =
     Some \<lparr>seed = 856382025, min_r = 0, max_r = 1, resolution = 1, range_r = 1,
           inv_max_uint = 1 / 4294967296, max_steps = 1\<rparr> \<and>
   configure \<lparr>seed = 856382025, min_r = 0, max_r = 1, resolution = 1, range_r = 1,
           inv_max_uint = 1 / 4294967296, max_steps = 1\<rparr>
       [Set_Range 0 3, Set_Resolution 2, Set_Seed 42] =
     Some \<lparr>seed = 42, min_r = 0, max_r = 3, resolution = 2, range_r = 3,
           inv_max_uint = 1 / 4294967296, max_steps = 2\<rparr> \<and>
   draws 3 \<lparr>seed = 42, min_r = 0, max_r = 3, resolution = 2, range_r = 3,
           inv_max_uint = 1 / 4294967296, max_steps = 2\<rparr> =
   draws 3 \<lparr>seed = 42, min_r = 0, max_r = 3, resolution = 2, range_r = 3,
           inv_max_uint = 1 / 4294967296, max_steps = 2\<rparr>"
proof -
  let ?ini = "\<lparr>seed = 856382025, min_r = 0, max_r = 3, resolution = 2, range_r = 3,
           inv_max_uint = 1 / 4294967296, max_steps = 2\<rparr>"
  let ?fin = "\<lparr>seed = 42, min_r = 0, max_r = 3, resolution = 2, range_r = 3,
           inv_max_uint = 1 / 4294967296, max_steps = 2\<rparr>"
  have ca: "configure ?ini [Set_Seed 42] = Some ?fin" by (simp add: qx_randomizer_set_seed_def)
  have d: "draws 3 ?fin = draws 3 ?fin"
    by (rule randomizer_draws_deterministic [OF qx_randomizer_init_0_3_2 ca
          qx_randomizer_init_0_1_1 configure_0_3_2, THEN conjunct1]) simp_all
  show ?thesis
    by (intro conjI qx_randomizer_init_0_3_2 ca qx_randomizer_init_0_1_1 configure_0_3_2 d)
qed

end
